theory Spec2Isabelle
  imports Complex_Main
begin

section \<open>Strings\<close>

text \<open>
  A Python \<open>str\<close> is a sequence of Unicode code points and \<open>len\<close> counts code points, so a
  string is modelled as a list of code points (natural numbers).  The verse texts are not
  ASCII, which rules out HOL's eight-bit \<open>char\<close>; ASCII literals are written with
  \<open>py\<close>, e.g. \<open>py ''agni''\<close>.
\<close>

type_synonym pystr = "nat list"

definition py :: "string \<Rightarrow> pystr" where
  "py s = map of_char s"

definition lbrace :: nat where "lbrace = 123"
definition rbrace :: nat where "rbrace = 125"

text \<open>The character class \<open>[0-9]\<close>.\<close>

definition ascii_digit :: "nat \<Rightarrow> bool" where
  "ascii_digit c = (48 \<le> c \<and> c \<le> 57)"

text \<open>
  The character class \<open>\d\<close> of a \<open>str\<close> pattern matches every Unicode decimal digit
  (general category Nd), not only \<open>0\<close> to \<open>9\<close>.  The category consists of runs of ten
  consecutive code points; \<open>nd_blocks\<close> lists the first code point of each run (Unicode 14,
  the mathematical digits U+1D7CE to U+1D7FF being five runs).
\<close>

definition nd_blocks :: "nat list" where
  "nd_blocks =
    [48, 1632, 1776, 1984, 2406, 2534, 2662, 2790, 2918, 3046, 3174, 3302, 3430, 3558,
     3664, 3792, 3872, 4160, 4240, 6112, 6160, 6470, 6608, 6784, 6800, 6992, 7088, 7232,
     7248, 42528, 43216, 43264, 43472, 43504, 43600, 44016, 65296, 66720, 68912, 69734,
     69872, 69942, 70096, 70384, 70736, 70864, 71248, 71360, 71472, 71904, 72016, 72784,
     73040, 73120, 92768, 92864, 93008, 120782, 120792, 120802, 120812, 120822, 123200,
     123632, 125264, 130032]"

definition re_digit :: "nat \<Rightarrow> bool" where
  "re_digit c = list_ex (\<lambda>b. b \<le> c \<and> c < b + 10) nd_blocks"

text \<open>
  \<open>str.isspace\<close>: the characters on which \<open>str.split()\<close> (without arguments) splits and
  which \<open>str.strip()\<close> removes.
\<close>

definition py_isspace :: "nat \<Rightarrow> bool" where
  "py_isspace c =
    ((9 \<le> c \<and> c \<le> 13) \<or> (28 \<le> c \<and> c \<le> 32) \<or> c = 133 \<or> c = 160 \<or> c = 5760 \<or>
     (8192 \<le> c \<and> c \<le> 8202) \<or> c = 8232 \<or> c = 8233 \<or> c = 8239 \<or> c = 8287 \<or> c = 12288)"

text \<open>
  \<open>s.split()\<close>: maximal runs of non-space characters, in order; \<open>cur\<close> is the run being
  read.  No empty string is ever produced.
\<close>

fun split_acc :: "pystr \<Rightarrow> pystr \<Rightarrow> pystr list" where
  "split_acc cur [] = (if cur = [] then [] else [cur])"
| "split_acc cur (c # cs) =
    (if py_isspace c then (if cur = [] then split_acc [] cs else cur # split_acc [] cs)
     else split_acc (cur @ [c]) cs)"

definition py_split :: "pystr \<Rightarrow> pystr list" where
  "py_split s = split_acc [] s"

text \<open>\<open>s.strip()\<close>: leading and trailing space characters removed.\<close>

definition py_strip :: "pystr \<Rightarrow> pystr" where
  "py_strip s = rev (dropWhile py_isspace (rev (dropWhile py_isspace s)))"

section \<open>Svara markers\<close>

text \<open>
  \<open>re.sub(r'\{[0-9]+\}', '', text)\<close>, used by \<open>clean_svara_markers\<close> (extract\_text.py) and
  by \<open>extract_svara_info\<close> (postprocess\_sync.py).  The scan goes from left to right; at each
  position \<open>marker_at\<close> tries to match an opening brace, one or more ASCII digits and a
  closing brace, and returns the text behind the match.  A match is deleted and the scan
  goes on behind it; otherwise the character is kept.
\<close>

fun marker_at :: "pystr \<Rightarrow> pystr option" where
  "marker_at (c # d # cs) =
    (if c = lbrace \<and> ascii_digit d then
       (case dropWhile ascii_digit cs of
          [] \<Rightarrow> None
        | r # rest \<Rightarrow> if r = rbrace then Some rest else None)
     else None)"
| "marker_at _ = None"

lemma marker_at_shorter: "marker_at s = Some rest \<Longrightarrow> length rest < length s"
proof (cases s rule: marker_at.cases)
  case (1 c d cs)
  assume m: "marker_at s = Some rest"
  have "length (dropWhile ascii_digit cs) \<le> length cs"
    by (rule length_dropWhile_le)
  with 1 m show ?thesis
    by (auto split: if_splits list.splits)
qed simp_all

function sub_markers :: "pystr \<Rightarrow> pystr" where
  "sub_markers [] = []"
| "sub_markers (c # cs) =
    (case marker_at (c # cs) of
       Some rest \<Rightarrow> sub_markers rest
     | None \<Rightarrow> c # sub_markers cs)"
  by pat_completeness auto
termination
  by (relation "measure length") (auto dest: marker_at_shorter)

definition clean_svara_markers :: "pystr \<Rightarrow> pystr" where
  "clean_svara_markers text = sub_markers text"

text \<open>
  \<open>re.finditer(r'\{(\d)\}', text)\<close>: the non-overlapping matches of an opening brace, one
  decimal digit and a closing brace, from left to right; the result lists \<open>group(1)\<close> of
  every match, a string of one character.
\<close>

fun svara_matches :: "pystr \<Rightarrow> pystr list" where
  "svara_matches (a # d # b # rest) =
    (if a = lbrace \<and> re_digit d \<and> b = rbrace then [d] # svara_matches rest
     else svara_matches (d # b # rest))"
| "svara_matches _ = []"

text \<open>
  A \<open>dict\<close> with string keys is an association list in insertion order.
  \<open>dict_incr k d\<close> is \<open>if k in d: d[k] += 1\<close>, and \<open>dict_get d k v\<close> is \<open>d.get(k, v)\<close>.
\<close>

fun dict_incr :: "pystr \<Rightarrow> (pystr \<times> nat) list \<Rightarrow> (pystr \<times> nat) list" where
  "dict_incr k [] = []"
| "dict_incr k ((k', n) # kvs) =
    (if k = k' then (k', n + 1) # kvs else (k', n) # dict_incr k kvs)"

fun dict_get :: "(pystr \<times> 'v) list \<Rightarrow> pystr \<Rightarrow> 'v \<Rightarrow> 'v" where
  "dict_get d k v = (case map_of d k of None \<Rightarrow> v | Some x \<Rightarrow> x)"

text \<open>The loop of \<open>extract_svara_info\<close> over the matches.\<close>

fun count_svaras :: "pystr list \<Rightarrow> (pystr \<times> nat) list \<Rightarrow> (pystr \<times> nat) list" where
  "count_svaras [] svara_counts = svara_counts"
| "count_svaras (svara_type # ms) svara_counts =
    count_svaras ms (dict_incr svara_type svara_counts)"

text \<open>
  \<open>text.replace('{d}', new)\<close> for a digit \<open>d\<close>: every occurrence of the three characters,
  from left to right and without overlap, is replaced.
\<close>

fun replace_marker :: "nat \<Rightarrow> pystr \<Rightarrow> pystr \<Rightarrow> pystr" where
  "replace_marker d new (a # x # b # rest) =
    (if a = lbrace \<and> x = d \<and> b = rbrace then new @ replace_marker d new rest
     else a # replace_marker d new (x # b # rest))"
| "replace_marker d new s = s"

text \<open>
  The combining marks are U+0952 (anudatta), U+1CDA (svarita) and U+0951 (udatta); the
  digits \<open>1\<close>, \<open>2\<close>, \<open>5\<close>, \<open>0\<close> are the code points 49, 50, 53, 48.
\<close>

definition parse_svara_to_unicode :: "pystr \<Rightarrow> pystr" where
  "parse_svara_to_unicode text_with_markers =
    replace_marker 48 []
      (replace_marker 53 [2385]
        (replace_marker 50 [7386]
          (replace_marker 49 [2386] text_with_markers)))"

text \<open>
  The dictionary of a word.  \<open>extract_svara_info\<close> fills the first four fields and
  \<open>extract_words_with_svaras\<close> adds \<open>weight\<close> and \<open>raw\<close>.  \<open>adjust_timing\<close> reads
  \<open>text_with_svaras\<close> with a default, so the key may be absent.  A Python \<open>float\<close> is
  modelled as a real number here: the rounding of binary floating-point arithmetic is left
  to the section on the weights in binary64 arithmetic.
\<close>

record word_info =
  clean_text :: pystr
  text_with_svaras :: "pystr option"
  svara_counts :: "(pystr \<times> nat) list"
  total_svaras :: nat
  weight :: real
  raw :: pystr

definition SVARA_WEIGHTS :: "(pystr \<times> real) list" where
  "SVARA_WEIGHTS = [(py ''0'', 0.0), (py ''1'', 0.0), (py ''2'', 0.08), (py ''5'', 0.20)]"

definition extract_svara_info :: "pystr \<Rightarrow> word_info" where
  "extract_svara_info text_with_markers =
    (let svara_counts0 = [(py ''0'', 0), (py ''1'', 0), (py ''2'', 0), (py ''5'', 0)];
         counts = count_svaras (svara_matches text_with_markers) svara_counts0;
         clean = sub_markers text_with_markers;
         text_with_unicode_svaras = parse_svara_to_unicode text_with_markers
     in \<lparr> clean_text = clean,
          text_with_svaras = Some text_with_unicode_svaras,
          svara_counts = counts,
          total_svaras = sum_list (map snd counts),
          weight = 0,
          raw = [] \<rparr>)"

text \<open>The loop of \<open>calculate_svara_weight\<close> over the items of the dictionary.\<close>

fun svara_weight_loop :: "real \<Rightarrow> (pystr \<times> nat) list \<Rightarrow> real" where
  "svara_weight_loop wt [] = wt"
| "svara_weight_loop wt ((svara_type, count) # items) =
    svara_weight_loop (wt + dict_get SVARA_WEIGHTS svara_type 0.0 * real count) items"

definition calculate_svara_weight :: "(pystr \<times> nat) list \<Rightarrow> real" where
  "calculate_svara_weight counts = svara_weight_loop 0.0 counts"

section \<open>The two tokenizers\<close>

text \<open>
  A line of the verse record is a string, a list whose parts are strings or other JSON
  values, or another JSON value.
\<close>

datatype json_part = PStr pystr | POther

datatype json_line = LStr pystr | LList "json_part list" | LOther

text \<open>The body of the inner loop of \<open>extract_words_with_svaras\<close>, for one raw word.\<close>

definition svara_word :: "pystr \<Rightarrow> word_info" where
  "svara_word raw_word =
    (let info = extract_svara_info raw_word
     in info \<lparr> weight := calculate_svara_weight (svara_counts info), raw := raw_word \<rparr>)"

fun extract_words_with_svaras :: "json_line list \<Rightarrow> word_info list" where
  "extract_words_with_svaras [] = []"
| "extract_words_with_svaras (LStr line # samhita_lines) =
    map svara_word (py_split line) @ extract_words_with_svaras samhita_lines"
| "extract_words_with_svaras (_ # samhita_lines) = extract_words_with_svaras samhita_lines"

text \<open>
  \<open>[w.strip() for w in clean.split() if w.strip()]\<close> of \<open>extract_words_from_samhita\<close>
  (extract\_text.py), for the text of a line or of a part of a list line.
\<close>

definition line_words :: "pystr \<Rightarrow> pystr list" where
  "line_words text =
    (let clean = clean_svara_markers text
     in map py_strip (filter (\<lambda>w. py_strip w \<noteq> []) (py_split clean)))"

fun part_words :: "json_part list \<Rightarrow> pystr list" where
  "part_words [] = []"
| "part_words (PStr part # parts) = line_words part @ part_words parts"
| "part_words (POther # parts) = part_words parts"

text \<open>The argument is \<open>verse_data.get('samhita', {}).get('lines', [])\<close>.\<close>

fun extract_words_from_samhita :: "json_line list \<Rightarrow> pystr list" where
  "extract_words_from_samhita [] = []"
| "extract_words_from_samhita (LStr line # lines) =
    line_words line @ extract_words_from_samhita lines"
| "extract_words_from_samhita (LList parts # lines) =
    part_words parts @ extract_words_from_samhita lines"
| "extract_words_from_samhita (LOther # lines) = extract_words_from_samhita lines"

section \<open>The sync map\<close>

text \<open>
  A fragment of the sync map.  \<open>f_begin\<close> and \<open>f_end\<close> are the keys \<open>begin\<close> and \<open>end\<close>
  as \<open>float\<close> reads them; a record whose timestamps \<open>float\<close> rejects is not modelled.  The
  adjusted fragment is a copy of the original one with \<open>begin\<close> and \<open>end\<close> rewritten and the
  keys \<open>lines_with_svaras\<close> and \<open>svara_info\<close> added; a key that is absent is \<open>None\<close>.
\<close>

record svara_meta =
  counts :: "(pystr \<times> nat) list"
  bonus :: real
  original_duration :: real
  adjusted_duration :: real

record fragment =
  f_begin :: real
  f_end :: real
  f_lines :: "pystr list option"
  lines_with_svaras :: "pystr list option"
  svara_info :: "svara_meta option"

record sync_data =
  fragments :: "fragment list option"

datatype py_error = IndexError | ZeroDivisionError | LoadError

text \<open>\<open>frag['lines'][0] if frag.get('lines') else ''\<close>\<close>

definition frag_text :: "fragment \<Rightarrow> pystr" where
  "frag_text frag = (case f_lines frag of Some (l # ls) \<Rightarrow> l | _ \<Rightarrow> [])"

text \<open>
  The recovery path of \<open>adjust_timing\<close>.  The inner loop goes through the whole word list
  for every fragment and stops at the first word whose stripped clean text equals the
  stripped text of the fragment; a fragment with no such word adds nothing to \<open>matched\<close>.
\<close>

fun first_word :: "pystr \<Rightarrow> word_info list \<Rightarrow> word_info option" where
  "first_word frag_txt [] = None"
| "first_word frag_txt (word # words) =
    (if py_strip (clean_text word) = py_strip frag_txt then Some word
     else first_word frag_txt words)"

fun match_by_text :: "fragment list \<Rightarrow> word_info list \<Rightarrow> (fragment \<times> word_info) list" where
  "match_by_text [] words = []"
| "match_by_text (frag # frags) words =
    (case first_word (frag_text frag) words of
       Some word \<Rightarrow> (frag, word) # match_by_text frags words
     | None \<Rightarrow> match_by_text frags words)"

text \<open>The entry of \<open>word_weights\<close> for the word at position \<open>i\<close>.\<close>

record weight_info =
  w_index :: nat
  w_text :: pystr
  w_text_with_svaras :: pystr
  w_base_weight :: real
  w_svara_bonus :: real
  w_total_weight :: real
  w_svara_counts :: "(pystr \<times> nat) list"

definition base_weight_per_char :: real where
  "base_weight_per_char = 0.1"

definition word_weight :: "nat \<Rightarrow> word_info \<Rightarrow> weight_info" where
  "word_weight i word =
    (let char_count = length (clean_text word);
         base_weight = real char_count * base_weight_per_char;
         svara_bonus = weight word;
         total_weight = base_weight + svara_bonus
     in \<lparr> w_index = i,
          w_text = clean_text word,
          w_text_with_svaras =
            (case text_with_svaras word of Some t \<Rightarrow> t | None \<Rightarrow> clean_text word),
          w_base_weight = base_weight,
          w_svara_bonus = svara_bonus,
          w_total_weight = total_weight,
          w_svara_counts = svara_counts word \<rparr>)"

fun word_weights_loop :: "nat \<Rightarrow> (fragment \<times> word_info) list \<Rightarrow> weight_info list" where
  "word_weights_loop i [] = []"
| "word_weights_loop i ((frag, word) # rest) = word_weight i word # word_weights_loop (i + 1) rest"

text \<open>
  \<open>f"{x:.3f}"\<close>: the decimal with three fractional digits nearest to \<open>x\<close>, a tie going to
  the even last digit.  The rendered text is represented by its value.
\<close>

definition round_half_even :: "real \<Rightarrow> int" where
  "round_half_even x =
    (let f = \<lfloor>x\<rfloor>; r = x - of_int f
     in if r < 1 / 2 then f else if 1 / 2 < r then f + 1 else if even f then f else f + 1)"

definition fmt3 :: "real \<Rightarrow> real" where
  "fmt3 x = of_int (round_half_even (x * 1000)) / 1000"

text \<open>
  The redistribution loop of \<open>adjust_timing\<close>.  Dividing a \<open>float\<close> by zero raises
  \<open>ZeroDivisionError\<close>.
\<close>

fun adjust_loop ::
  "real \<Rightarrow> real \<Rightarrow> real \<Rightarrow> (fragment \<times> weight_info) list \<Rightarrow> py_error + fragment list" where
  "adjust_loop total_duration total_weight current_time [] = Inr []"
| "adjust_loop total_duration total_weight current_time ((frag, weight_info) # rest) =
    (let original_begin = f_begin frag;
         original_end = f_end frag;
         original_dur = original_end - original_begin
     in if total_weight = 0 then Inl ZeroDivisionError
        else
          (let weight_ratio = w_total_weight weight_info / total_weight;
               new_duration = total_duration * weight_ratio;
               adjusted_frag = frag
                 \<lparr> f_begin := fmt3 current_time,
                   f_end := fmt3 (current_time + new_duration),
                   lines_with_svaras := Some [w_text_with_svaras weight_info],
                   svara_info := Some
                     \<lparr> counts = w_svara_counts weight_info,
                       bonus = w_svara_bonus weight_info,
                       original_duration = original_dur,
                       adjusted_duration = new_duration \<rparr> \<rparr>
           in case adjust_loop total_duration total_weight (current_time + new_duration) rest of
                Inl e \<Rightarrow> Inl e
              | Inr adjusted_fragments \<Rightarrow> Inr (adjusted_frag # adjusted_fragments)))"

text \<open>
  The part of \<open>adjust_timing\<close> behind the matching, which both paths reach with as many
  words as fragments.  \<open>fragments[-1]\<close> raises \<open>IndexError\<close> on an empty list.
\<close>

definition redistribute :: "fragment list \<Rightarrow> word_info list \<Rightarrow> py_error + sync_data" where
  "redistribute frags words =
    (if frags = [] then Inl IndexError
     else
       (let total_duration = f_end (last frags) - f_begin (hd frags);
            word_weights = word_weights_loop 0 (zip frags words);
            total_weight = sum_list (map w_total_weight word_weights)
        in case adjust_loop total_duration total_weight (f_begin (hd frags))
                  (zip frags word_weights) of
             Inl e \<Rightarrow> Inl e
           | Inr adjusted_fragments \<Rightarrow> Inr \<lparr> fragments = Some adjusted_fragments \<rparr>))"

text \<open>\<open>sync_data.get('fragments', [])\<close>\<close>

definition get_fragments :: "sync_data \<Rightarrow> fragment list" where
  "get_fragments sync = (case fragments sync of None \<Rightarrow> [] | Some fs \<Rightarrow> fs)"

definition adjust_timing :: "sync_data \<Rightarrow> word_info list \<Rightarrow> py_error + sync_data" where
  "adjust_timing sync words_with_svaras =
    (let frags = get_fragments sync
     in if length frags \<noteq> length words_with_svaras then
          (let matched = match_by_text frags words_with_svaras
           in if length matched \<noteq> length frags then Inr sync
              else redistribute frags (map snd matched))
        else redistribute frags words_with_svaras)"

text \<open>
  \<open>process_verse\<close>, with the results of the two loads as arguments.  \<open>Saved d\<close> stands for
  \<open>(True, output_path)\<close> with \<open>d\<close> written to the output file, \<open>Failed e\<close> for
  \<open>(False, str(e))\<close>: every exception raised in the body is caught.  Writing the output
  file is taken to succeed.
\<close>

datatype verse_result = Saved sync_data | Failed py_error

definition process_verse :: "py_error + json_line list \<Rightarrow> py_error + sync_data \<Rightarrow> verse_result" where
  "process_verse verse_load sync_load =
    (case verse_load of
       Inl e \<Rightarrow> Failed e
     | Inr samhita_lines \<Rightarrow>
        (case sync_load of
           Inl e \<Rightarrow> Failed e
         | Inr sync \<Rightarrow>
            (case adjust_timing sync (extract_words_with_svaras samhita_lines) of
               Inl e \<Rightarrow> Failed e
             | Inr adjusted_sync \<Rightarrow> Saved adjusted_sync)))"

text \<open>The loop of \<open>main\<close> over the verses of the batch.\<close>

fun process_batch :: "((py_error + json_line list) \<times> (py_error + sync_data)) list \<Rightarrow> verse_result list" where
  "process_batch [] = []"
| "process_batch ((verse_load, sync_load) # riks) =
    process_verse verse_load sync_load # process_batch riks"

section \<open>The weights in binary64 arithmetic\<close>

text \<open>
  The timing properties below read a Python \<open>float\<close> as a real number.  The value of a
  weight is a matter of the last bit, so the computation of the weights is given a second
  time, in the arithmetic of the code: every literal and every result of an operation is
  rounded to the nearest binary64 number, a tie going to the even significand.

  \<open>binade n x\<close> is the exponent of the leading bit of a positive \<open>x\<close>, found by halving or
  doubling at most \<open>n\<close> times.  \<open>round_double\<close> keeps 53 significant bits, or the multiples
  of \<open>2 ^ - 1074\<close> below the normal range; overflow to infinity is not modelled.  Lengths
  and counts are below \<open>2 ^ 53\<close>, where the conversion of an \<open>int\<close> to \<open>float\<close> is exact.
\<close>

fun binade :: "nat \<Rightarrow> real \<Rightarrow> int" where
  "binade 0 x = 0"
| "binade (Suc n) x =
    (if 2 \<le> x then binade n (x / 2) + 1
     else if x < 1 then binade n (x * 2) - 1
     else 0)"

definition double_exponent :: "real \<Rightarrow> int" where
  "double_exponent x = max (binade 2200 \<bar>x\<bar> - 52) (- 1074)"

definition round_double :: "real \<Rightarrow> real" where
  "round_double x =
    (if x = 0 then 0
     else real_of_int (round_half_even (x / 2 powr real_of_int (double_exponent x))) *
          2 powr real_of_int (double_exponent x))"

text \<open>The literals of \<open>SVARA_WEIGHTS\<close> as the interpreter reads them.\<close>

definition SVARA_WEIGHTS_double :: "(pystr \<times> real) list" where
  "SVARA_WEIGHTS_double = map (\<lambda>(svara_type, v). (svara_type, round_double v)) SVARA_WEIGHTS"

text \<open>\<open>calculate_svara_weight\<close>: one product and one sum, both rounded, for every item.\<close>

fun svara_weight_loop_double :: "real \<Rightarrow> (pystr \<times> nat) list \<Rightarrow> real" where
  "svara_weight_loop_double wt [] = wt"
| "svara_weight_loop_double wt ((svara_type, count) # items) =
    svara_weight_loop_double
      (round_double (wt + round_double (dict_get SVARA_WEIGHTS_double svara_type 0.0 * real count)))
      items"

definition calculate_svara_weight_double :: "(pystr \<times> nat) list \<Rightarrow> real" where
  "calculate_svara_weight_double cnts = svara_weight_loop_double 0.0 cnts"

text \<open>The word of a raw token, and its entry of \<open>word_weights\<close>, in this arithmetic.\<close>

definition svara_word_double :: "pystr \<Rightarrow> word_info" where
  "svara_word_double raw_word =
    (let info = extract_svara_info raw_word
     in info \<lparr> weight := calculate_svara_weight_double (svara_counts info), raw := raw_word \<rparr>)"

definition word_weight_double :: "nat \<Rightarrow> word_info \<Rightarrow> weight_info" where
  "word_weight_double i word =
    (let char_count = length (clean_text word);
         base_weight = round_double (real char_count * round_double base_weight_per_char);
         svara_bonus = weight word;
         total_weight = round_double (base_weight + svara_bonus)
     in \<lparr> w_index = i,
          w_text = clean_text word,
          w_text_with_svaras =
            (case text_with_svaras word of Some t \<Rightarrow> t | None \<Rightarrow> clean_text word),
          w_base_weight = base_weight,
          w_svara_bonus = svara_bonus,
          w_total_weight = total_weight,
          w_svara_counts = svara_counts word \<rparr>)"

section \<open>Predicates of the properties\<close>

text \<open>
  \<open>has_marker s\<close>: some position of \<open>s\<close> starts a marker, that is a match of the
  stripping pattern.
\<close>

fun has_marker :: "pystr \<Rightarrow> bool" where
  "has_marker [] = False"
| "has_marker (c # cs) = (case marker_at (c # cs) of Some rest \<Rightarrow> True | None \<Rightarrow> has_marker cs)"

fun is_str :: "json_line \<Rightarrow> bool" where
  "is_str (LStr line) = True"
| "is_str _ = False"

text \<open>
  The outcome of the matching in \<open>adjust_timing\<close>: the words that the redistribution is
  run on, or \<open>None\<close> when the input is returned as it is.
\<close>

definition matched_words :: "fragment list \<Rightarrow> word_info list \<Rightarrow> word_info list option" where
  "matched_words frags words =
    (if length frags = length words then Some words
     else if length (match_by_text frags words) = length frags
       then Some (map snd (match_by_text frags words))
       else None)"

text \<open>The total weight of a word, which does not depend on its position.\<close>

definition total_weight_of :: "word_info \<Rightarrow> real" where
  "total_weight_of word = w_total_weight (word_weight 0 word)"

text \<open>The \<open>adjusted_duration\<close> entries of the fragments that carry \<open>svara_info\<close>.\<close>

fun adjusted_durations :: "fragment list \<Rightarrow> real list" where
  "adjusted_durations [] = []"
| "adjusted_durations (frag # frags) =
    (case svara_info frag of
       Some info \<Rightarrow> adjusted_duration info # adjusted_durations frags
     | None \<Rightarrow> adjusted_durations frags)"

text \<open>
  The recovery path as the specification words it, for comparison: every fragment, in
  order, takes the first word not taken by an earlier fragment whose clean text equals
  the text of the fragment, and the matching is infeasible when a fragment finds none.
\<close>

fun take_first_equal :: "pystr \<Rightarrow> word_info list \<Rightarrow> (word_info \<times> word_info list) option" where
  "take_first_equal txt [] = None"
| "take_first_equal txt (word # words) =
    (if clean_text word = txt then Some (word, words)
     else (case take_first_equal txt words of
             None \<Rightarrow> None
           | Some (found, remaining) \<Rightarrow> Some (found, word # remaining)))"

fun spec_recovery :: "fragment list \<Rightarrow> word_info list \<Rightarrow> (fragment \<times> word_info) list option" where
  "spec_recovery [] words = Some []"
| "spec_recovery (frag # frags) words =
    (case take_first_equal (frag_text frag) words of
       None \<Rightarrow> None
     | Some (found, remaining) \<Rightarrow>
        (case spec_recovery frags remaining of
           None \<Rightarrow> None
         | Some pairs \<Rightarrow> Some ((frag, found) # pairs)))"

text \<open>The boundaries of the fragments of a result, for reading examples.\<close>

definition boundaries :: "py_error + sync_data \<Rightarrow> py_error + (real \<times> real) list" where
  "boundaries r =
    (case r of
       Inl e \<Rightarrow> Inl e
     | Inr out \<Rightarrow> Inr (map (\<lambda>frag. (f_begin frag, f_end frag)) (get_fragments out)))"

text \<open>A fragment as the alignment engine writes it: two timestamps and one line of text.\<close>

definition aligned :: "real \<Rightarrow> real \<Rightarrow> pystr \<Rightarrow> fragment" where
  "aligned b e txt =
    \<lparr> f_begin = b, f_end = e, f_lines = Some [txt], lines_with_svaras = None,
      svara_info = None \<rparr>"

text \<open>
  Half a unit in the last place of a number in \<open>[1, 2)\<close>, and the relation of a computed
  value \<open>x\<close> to an exact value \<open>y\<close> after at most \<open>k\<close> roundings.
\<close>

definition unit_roundoff :: real where
  "unit_roundoff = 1 / 2 ^ 53"

definition rel_close :: "nat \<Rightarrow> real \<Rightarrow> real \<Rightarrow> bool" where
  "rel_close k x y = (y * (1 - unit_roundoff) ^ k \<le> x \<and> x \<le> y * (1 + unit_roundoff) ^ k)"

section \<open>Stripping and splitting\<close>

lemma ascii_digit_re_digit: "ascii_digit c \<Longrightarrow> re_digit c"
  by (simp add: ascii_digit_def re_digit_def nd_blocks_def)

lemma isspace_not_marker_char:
  "py_isspace c \<Longrightarrow> c \<noteq> lbrace \<and> c \<noteq> rbrace \<and> \<not> ascii_digit c"
  by (auto simp add: ascii_digit_def py_isspace_def lbrace_def rbrace_def)

lemma brace_not_digit: "\<not> ascii_digit lbrace" "\<not> ascii_digit rbrace" "lbrace \<noteq> rbrace"
  "\<not> re_digit lbrace" "\<not> re_digit rbrace"
  by (simp_all add: ascii_digit_def lbrace_def rbrace_def re_digit_def nd_blocks_def)

text \<open>A match of the stripping pattern at the head of a string, spelled out.\<close>

lemma marker_at_Some_iff:
  "marker_at s = Some rest \<longleftrightarrow>
     (\<exists>ds. s = lbrace # ds @ rbrace # rest \<and> ds \<noteq> [] \<and> list_all ascii_digit ds)"
proof
  assume m: "marker_at s = Some rest"
  then obtain c d cs where s: "s = c # d # cs"
    by (cases s rule: marker_at.cases) auto
  from m s have c: "c = lbrace" and d: "ascii_digit d"
    and dw: "dropWhile ascii_digit cs = rbrace # rest"
    by (auto split: if_splits list.splits)
  have "cs = takeWhile ascii_digit cs @ rbrace # rest"
    using dw takeWhile_dropWhile_id [of ascii_digit cs] by simp
  then have "s = lbrace # (d # takeWhile ascii_digit cs) @ rbrace # rest"
    using s c by simp
  moreover have "list_all ascii_digit (d # takeWhile ascii_digit cs)"
    using d by (simp add: list_all_iff) (meson set_takeWhileD)
  ultimately show "\<exists>ds. s = lbrace # ds @ rbrace # rest \<and> ds \<noteq> [] \<and> list_all ascii_digit ds"
    by blast
next
  assume "\<exists>ds. s = lbrace # ds @ rbrace # rest \<and> ds \<noteq> [] \<and> list_all ascii_digit ds"
  then obtain ds where s: "s = lbrace # ds @ rbrace # rest" and ne: "ds \<noteq> []"
    and dg: "list_all ascii_digit ds" by blast
  from ne obtain d ds' where ds: "ds = d # ds'" by (cases ds) auto
  have "dropWhile ascii_digit (ds' @ rbrace # rest) = rbrace # rest"
    using dg ds by (simp add: dropWhile_append3 list_all_iff brace_not_digit)
  then show "marker_at s = Some rest"
    using s ds dg by simp
qed

lemma sub_markers_no_marker:
  assumes "\<not> (\<exists>p ds q. s = p @ lbrace # ds @ rbrace # q \<and> ds \<noteq> [] \<and> list_all ascii_digit ds)"
  shows "sub_markers s = s"
  using assms
proof (induction s rule: sub_markers.induct)
  case 1
  show ?case by simp
next
  case (2 c cs)
  have none: "marker_at (c # cs) = None"
  proof (cases "marker_at (c # cs)")
    case (Some rest)
    then obtain ds where "c # cs = [] @ lbrace # ds @ rbrace # rest" "ds \<noteq> []" "list_all ascii_digit ds"
      unfolding marker_at_Some_iff by auto
    with "2.prems" show ?thesis by blast
  qed simp
  have "\<not> (\<exists>p ds q. cs = p @ lbrace # ds @ rbrace # q \<and> ds \<noteq> [] \<and> list_all ascii_digit ds)"
  proof
    assume "\<exists>p ds q. cs = p @ lbrace # ds @ rbrace # q \<and> ds \<noteq> [] \<and> list_all ascii_digit ds"
    then obtain p ds q where "cs = p @ lbrace # ds @ rbrace # q" "ds \<noteq> []" "list_all ascii_digit ds"
      by blast
    then have "c # cs = (c # p) @ lbrace # ds @ rbrace # q" by simp
    with "2.prems" \<open>ds \<noteq> []\<close> \<open>list_all ascii_digit ds\<close> show False by blast
  qed
  with "2.IH"(1) [OF none] none show ?case by simp
qed

text \<open>A character that cannot stand in a marker separates the stripping of its two sides.\<close>

lemma marker_at_append_sep:
  assumes "c \<noteq> rbrace" "\<not> ascii_digit c" "p \<noteq> []"
  shows "marker_at (p @ c # q) = map_option (\<lambda>r. r @ c # q) (marker_at p)"
proof -
  consider a where "p = [a]" | a d cs where "p = a # d # cs"
    using assms(3) by (cases p rule: marker_at.cases) auto
  then show ?thesis
  proof cases
    case 1
    with assms show ?thesis by (cases q) auto
  next
    case 2
    show ?thesis
    proof (cases "a = lbrace \<and> ascii_digit d")
      case False
      with 2 show ?thesis by auto
    next
      case True
      show ?thesis
      proof (cases "dropWhile ascii_digit cs")
        case Nil
        then have "\<forall>x\<in>set cs. ascii_digit x" by simp
        then have "dropWhile ascii_digit (cs @ c # q) = c # q"
          using assms(2) by simp
        with 2 True assms show ?thesis by (simp add: Nil)
      next
        case (Cons r rest)
        then have "r \<in> set cs" "\<not> ascii_digit r"
          using set_dropWhileD [of r ascii_digit cs] hd_dropWhile [of ascii_digit cs] by auto
        then have "dropWhile ascii_digit (cs @ c # q) = dropWhile ascii_digit cs @ c # q"
          by (rule dropWhile_append1)
        with 2 True Cons show ?thesis by simp
      qed
    qed
  qed
qed

lemma sub_markers_append:
  assumes "c \<noteq> rbrace" "\<not> ascii_digit c"
  shows "sub_markers (p @ c # q) = sub_markers p @ sub_markers (c # q)"
proof (induction p rule: sub_markers.induct)
  case 1
  show ?case by simp
next
  case (2 a cs)
  have m: "marker_at ((a # cs) @ c # q) = map_option (\<lambda>r. r @ c # q) (marker_at (a # cs))"
    using assms by (intro marker_at_append_sep) auto
  show ?case
  proof (cases "marker_at (a # cs)")
    case None
    with m 2 show ?thesis by simp
  next
    case (Some rest)
    with m 2 show ?thesis by simp
  qed
qed

lemma sub_markers_sep:
  assumes "c \<noteq> lbrace" "c \<noteq> rbrace" "\<not> ascii_digit c"
  shows "sub_markers (p @ c # q) = sub_markers p @ c # sub_markers q"
proof -
  have "marker_at (c # q) = None" using assms by (cases q) auto
  then show ?thesis using assms by (simp add: sub_markers_append)
qed

lemma sub_markers_marker:
  assumes "ds \<noteq> []" "list_all ascii_digit ds"
  shows "sub_markers (p @ lbrace # ds @ rbrace # q) = sub_markers p @ sub_markers q"
proof -
  have "marker_at (lbrace # ds @ rbrace # q) = Some q"
    using assms unfolding marker_at_Some_iff by blast
  then show ?thesis
    by (simp add: sub_markers_append brace_not_digit)
qed

lemma set_sub_markers: "set (sub_markers s) \<subseteq> set s"
proof (induction s rule: sub_markers.induct)
  case 1
  show ?case by simp
next
  case (2 c cs)
  show ?case
  proof (cases "marker_at (c # cs)")
    case None
    with 2 show ?thesis by auto
  next
    case (Some rest)
    then obtain ds where "c # cs = lbrace # ds @ rbrace # rest"
      unfolding marker_at_Some_iff by blast
    then have "set rest \<subseteq> set (c # cs)" by (metis set_subset_Cons set_append Un_upper2 subset_trans)
    with 2 Some show ?thesis by auto
  qed
qed

text \<open>Splitting on white space.\<close>

lemma split_acc_nospace:
  "list_all (\<lambda>c. \<not> py_isspace c) w \<Longrightarrow> split_acc cur (w @ s) = split_acc (cur @ w) s"
  by (induction w arbitrary: cur) simp_all

lemma split_nospace:
  "list_all (\<lambda>c. \<not> py_isspace c) w \<Longrightarrow> split_acc [] w = (if w = [] then [] else [w])"
  using split_acc_nospace [of w "[]" "[]"] by simp

lemma split_acc_words:
  "list_all (\<lambda>c. \<not> py_isspace c) cur \<Longrightarrow> w \<in> set (split_acc cur s) \<Longrightarrow>
     w \<noteq> [] \<and> list_all (\<lambda>c. \<not> py_isspace c) w"
proof (induction s arbitrary: cur)
  case Nil
  then show ?case by (auto split: if_splits)
next
  case (Cons c cs)
  show ?case
  proof (cases "py_isspace c")
    case True
    with Cons.prems have "w = cur \<and> cur \<noteq> [] \<or> w \<in> set (split_acc [] cs)"
      by (auto split: if_splits)
    then show ?thesis
      using Cons.IH [of "[]"] Cons.prems(1) by auto
  next
    case False
    with Cons.prems have "w \<in> set (split_acc (cur @ [c]) cs)" by simp
    then show ?thesis
      using Cons.IH [of "cur @ [c]"] Cons.prems(1) False by simp
  qed
qed

lemma py_strip_nospace: "list_all (\<lambda>c. \<not> py_isspace c) w \<Longrightarrow> py_strip w = w"
proof -
  assume a: "list_all (\<lambda>c. \<not> py_isspace c) w"
  have "dropWhile py_isspace xs = xs" if "list_all (\<lambda>c. \<not> py_isspace c) xs" for xs
    using that by (cases xs) auto
  from this [of w] this [of "rev w"] a show ?thesis
    by (simp add: py_strip_def)
qed

lemma split_sub_markers_acc:
  "list_all (\<lambda>c. \<not> py_isspace c) cur \<Longrightarrow>
   split_acc [] (sub_markers (cur @ s)) =
     filter (\<lambda>w. w \<noteq> []) (map sub_markers (split_acc cur s))"
proof (induction s arbitrary: cur)
  case Nil
  have "list_all (\<lambda>c. \<not> py_isspace c) (sub_markers cur)"
    using Nil set_sub_markers [of cur] by (auto simp: list_all_iff)
  then show ?case by (auto simp: split_nospace)
next
  case (Cons c cs)
  show ?case
  proof (cases "py_isspace c")
    case True
    have ns: "list_all (\<lambda>c. \<not> py_isspace c) (sub_markers cur)"
      using Cons.prems set_sub_markers [of cur] by (auto simp: list_all_iff)
    have "sub_markers (cur @ c # cs) = sub_markers cur @ c # sub_markers cs"
      using True isspace_not_marker_char [of c] by (intro sub_markers_sep) auto
    then have "split_acc [] (sub_markers (cur @ c # cs)) =
        split_acc (sub_markers cur) (c # sub_markers cs)"
      using split_acc_nospace [OF ns, of "[]"] by simp
    also have "\<dots> = (if sub_markers cur = [] then [] else [sub_markers cur]) @
        split_acc [] (sub_markers ([] @ cs))"
      using True by simp
    also have "split_acc [] (sub_markers ([] @ cs)) =
        filter (\<lambda>w. w \<noteq> []) (map sub_markers (split_acc [] cs))"
      by (rule Cons.IH) simp
    finally show ?thesis using True by simp
  next
    case False
    have "split_acc [] (sub_markers ((cur @ [c]) @ cs)) =
        filter (\<lambda>w. w \<noteq> []) (map sub_markers (split_acc (cur @ [c]) cs))"
      using Cons.prems False by (intro Cons.IH) simp
    with False show ?thesis by simp
  qed
qed

lemma split_sub_markers:
  "py_split (sub_markers s) = filter (\<lambda>w. w \<noteq> []) (map sub_markers (py_split s))"
  using split_sub_markers_acc [of "[]" s] by (simp add: py_split_def)

lemma line_words_split: "line_words text = py_split (sub_markers text)"
proof -
  have "\<forall>w \<in> set (py_split (sub_markers text)). py_strip w = w \<and> w \<noteq> []"
    using split_acc_words [of "[]"] py_strip_nospace by (auto simp: py_split_def)
  then have "filter (\<lambda>w. py_strip w \<noteq> []) (py_split (sub_markers text)) = py_split (sub_markers text)"
    and "map py_strip (py_split (sub_markers text)) = py_split (sub_markers text)"
    by (auto simp: filter_id_conv map_idI)
  then show ?thesis
    by (simp add: line_words_def clean_svara_markers_def)
qed

lemma clean_text_svara_word: "clean_text (svara_word raw_word) = sub_markers raw_word"
  by (simp add: svara_word_def extract_svara_info_def Let_def)

lemma line_words_refines:
  "line_words line = filter (\<lambda>w. w \<noteq> []) (map clean_text (map svara_word (py_split line)))"
  by (simp add: line_words_split split_sub_markers clean_text_svara_word comp_def)


lemma has_marker_iff:
  "has_marker s \<longleftrightarrow>
     (\<exists>p ds q. s = p @ lbrace # ds @ rbrace # q \<and> ds \<noteq> [] \<and> list_all ascii_digit ds)"
proof (induction s)
  case Nil
  show ?case by simp
next
  case (Cons c cs)
  show ?case
  proof (cases "marker_at (c # cs)")
    case (Some rest)
    then obtain ds where "c # cs = [] @ lbrace # ds @ rbrace # rest" "ds \<noteq> []"
        "list_all ascii_digit ds"
      unfolding marker_at_Some_iff by auto
    then have "\<exists>p ds q. c # cs = p @ lbrace # ds @ rbrace # q \<and> ds \<noteq> [] \<and> list_all ascii_digit ds"
      by blast
    with Some show ?thesis by simp
  next
    case None
    have "(\<exists>p ds q. c # cs = p @ lbrace # ds @ rbrace # q \<and> ds \<noteq> [] \<and> list_all ascii_digit ds)
      \<longleftrightarrow> (\<exists>p ds q. cs = p @ lbrace # ds @ rbrace # q \<and> ds \<noteq> [] \<and> list_all ascii_digit ds)"
    proof
      assume "\<exists>p ds q. c # cs = p @ lbrace # ds @ rbrace # q \<and> ds \<noteq> [] \<and> list_all ascii_digit ds"
      then obtain p ds q where e: "c # cs = p @ lbrace # ds @ rbrace # q" and d: "ds \<noteq> []"
          "list_all ascii_digit ds"
        by blast
      show "\<exists>p ds q. cs = p @ lbrace # ds @ rbrace # q \<and> ds \<noteq> [] \<and> list_all ascii_digit ds"
      proof (cases p)
        case Nil
        with e d have "marker_at (c # cs) = Some q"
          unfolding marker_at_Some_iff by auto
        with None show ?thesis by simp
      next
        case (Cons a p')
        with e have "cs = p' @ lbrace # ds @ rbrace # q" by simp
        with d show ?thesis by blast
      qed
    next
      assume "\<exists>p ds q. cs = p @ lbrace # ds @ rbrace # q \<and> ds \<noteq> [] \<and> list_all ascii_digit ds"
      then obtain p ds q where "cs = p @ lbrace # ds @ rbrace # q" and d: "ds \<noteq> []"
          "list_all ascii_digit ds"
        by blast
      then have "c # cs = (c # p) @ lbrace # ds @ rbrace # q" by simp
      with d show "\<exists>p ds q. c # cs = p @ lbrace # ds @ rbrace # q \<and> ds \<noteq> [] \<and> list_all ascii_digit ds"
        by blast
    qed
    with None Cons show ?thesis by simp
  qed
qed

section \<open>The marker parser on clean text\<close>

text \<open>
  C8.  A string without markers, that is with no occurrence of an opening brace, one or more
  ASCII digits and a closing brace, is its own clean text: the marker parser
  (\<open>extract_svara_info\<close>) and \<open>clean_svara_markers\<close> both return it unchanged, every
  character at its place.
\<close>

theorem clean_text_identity_without_markers:
  assumes "\<not> (\<exists>p ds q. s = p @ lbrace # ds @ rbrace # q \<and> ds \<noteq> [] \<and> list_all ascii_digit ds)"
  shows "clean_text (extract_svara_info s) = s \<and> clean_svara_markers s = s"
  using sub_markers_no_marker [OF assms]
  by (simp add: extract_svara_info_def clean_svara_markers_def Let_def)

text \<open>The text \<open>a{x}b{}c\<close> has braces but no marker.\<close>

theorem clean_text_identity_witness:
  "clean_text (extract_svara_info (py ''a{x}b{}c'')) = py ''a{x}b{}c'' \<and>
   clean_svara_markers (py ''a{x}b{}c'') = py ''a{x}b{}c''"
proof -
  have "\<not> (\<exists>p ds q. py ''a{x}b{}c'' = p @ lbrace # ds @ rbrace # q \<and> ds \<noteq> [] \<and>
      list_all ascii_digit ds)"
    unfolding has_marker_iff [symmetric]
    by (simp add: py_def lbrace_def rbrace_def ascii_digit_def)
  then show ?thesis
    by (rule clean_text_identity_without_markers)
qed

section \<open>The two tokenizers compared\<close>

lemma extract_words_with_svaras_strings:
  "extract_words_with_svaras lines = extract_words_with_svaras (filter is_str lines)"
  by (induction lines rule: extract_words_with_svaras.induct) simp_all

lemma tokenizers_refine:
  "list_all is_str lines \<Longrightarrow>
   extract_words_from_samhita lines =
     filter (\<lambda>w. w \<noteq> []) (map clean_text (extract_words_with_svaras lines))"
proof (induction lines)
  case Nil
  show ?case by simp
next
  case (Cons l ls)
  then obtain line where l: "l = LStr line" by (cases l) auto
  from Cons have "extract_words_from_samhita ls =
      filter (\<lambda>w. w \<noteq> []) (map clean_text (extract_words_with_svaras ls))"
    by simp
  with l show ?case by (simp add: line_words_refines)
qed

text \<open>
  C10 (as amended).  \<open>extract_words_with_svaras\<close> reads the string lines only:
  it returns what it returns on the string lines alone.  On a verse all of whose lines are
  strings, \<open>extract_words_from_samhita\<close> returns the clean texts of the words of
  \<open>extract_words_with_svaras\<close>, in order, without the empty ones; so the two word sequences
  are the same exactly when no word has an empty clean text, that is when no token
  consists of markers only.
\<close>

theorem tokenizers_on_string_lines:
  "extract_words_with_svaras lines = extract_words_with_svaras (filter is_str lines) \<and>
   (list_all is_str lines \<longrightarrow>
      extract_words_from_samhita lines =
        filter (\<lambda>w. w \<noteq> []) (map clean_text (extract_words_with_svaras lines)) \<and>
      (extract_words_from_samhita lines = map clean_text (extract_words_with_svaras lines)
         \<longleftrightarrow> list_all (\<lambda>w. clean_text w \<noteq> []) (extract_words_with_svaras lines)))"
proof (intro conjI impI)
  show "extract_words_with_svaras lines = extract_words_with_svaras (filter is_str lines)"
    by (rule extract_words_with_svaras_strings)
next
  assume "list_all is_str lines"
  then show r: "extract_words_from_samhita lines =
      filter (\<lambda>w. w \<noteq> []) (map clean_text (extract_words_with_svaras lines))"
    by (rule tokenizers_refine)
  show "extract_words_from_samhita lines = map clean_text (extract_words_with_svaras lines)
      \<longleftrightarrow> list_all (\<lambda>w. clean_text w \<noteq> []) (extract_words_with_svaras lines)"
    unfolding r by (simp add: filter_id_conv list_all_iff)
qed

text \<open>
  The verse with the lines \<open>agni{1}m ii{2}Le\<close> and, as a list, \<open>puro hitam\<close>: the first
  tokenizer returns two words, the second four.
\<close>

theorem tokenizers_on_string_lines_witness:
  "list_all is_str [LStr (py ''agni{1}m ii{2}Le'')] \<and>
   extract_words_from_samhita [LStr (py ''agni{1}m ii{2}Le'')] = [py ''agnim'', py ''iiLe''] \<and>
   map clean_text (extract_words_with_svaras [LStr (py ''agni{1}m ii{2}Le'')]) =
     [py ''agnim'', py ''iiLe''] \<and>
   map clean_text (extract_words_with_svaras
     [LStr (py ''agni{1}m ii{2}Le''), LList [PStr (py ''puro hitam'')]]) =
     [py ''agnim'', py ''iiLe''] \<and>
   extract_words_from_samhita
     [LStr (py ''agni{1}m ii{2}Le''), LList [PStr (py ''puro hitam'')]] =
     [py ''agnim'', py ''iiLe'', py ''puro'', py ''hitam'']"
proof -
  have s: "list_all is_str [LStr (py ''agni{1}m ii{2}Le'')]" by simp
  have c: "map clean_text (extract_words_with_svaras [LStr (py ''agni{1}m ii{2}Le'')]) =
      [py ''agnim'', py ''iiLe'']"
    by (simp add: py_split_def py_def py_isspace_def clean_text_svara_word lbrace_def rbrace_def
        ascii_digit_def)
  have "extract_words_from_samhita [LStr (py ''agni{1}m ii{2}Le'')] =
      filter (\<lambda>w. w \<noteq> [])
        (map clean_text (extract_words_with_svaras [LStr (py ''agni{1}m ii{2}Le'')]))"
    using tokenizers_on_string_lines [of "[LStr (py ''agni{1}m ii{2}Le'')]"] s by blast
  then have "extract_words_from_samhita [LStr (py ''agni{1}m ii{2}Le'')] =
      [py ''agnim'', py ''iiLe'']"
    unfolding c by (simp add: py_def)
  moreover have "map clean_text (extract_words_with_svaras
      [LStr (py ''agni{1}m ii{2}Le''), LList [PStr (py ''puro hitam'')]]) =
      map clean_text (extract_words_with_svaras [LStr (py ''agni{1}m ii{2}Le'')])"
    using tokenizers_on_string_lines
      [of "[LStr (py ''agni{1}m ii{2}Le''), LList [PStr (py ''puro hitam'')]]"]
    by simp
  moreover have "extract_words_from_samhita
      [LStr (py ''agni{1}m ii{2}Le''), LList [PStr (py ''puro hitam'')]] =
      [py ''agnim'', py ''iiLe'', py ''puro'', py ''hitam'']"
    by (simp add: line_words_split py_split_def py_def py_isspace_def lbrace_def rbrace_def
        ascii_digit_def)
  ultimately show ?thesis using s c by simp
qed

text \<open>
  The claim as it was stated fails on the verse whose only line is the string
  \<open>agni {1} ile\<close>: the token \<open>{1}\<close> is a word with an empty clean text for
  \<open>extract_words_with_svaras\<close> and no word for \<open>extract_words_from_samhita\<close>.
\<close>

theorem tokenizers_differ_on_marker_token:
  "list_all is_str [LStr (py ''agni {1} ile'')] \<and>
   map clean_text (extract_words_with_svaras [LStr (py ''agni {1} ile'')]) =
     [py ''agni'', [], py ''ile''] \<and>
   extract_words_from_samhita [LStr (py ''agni {1} ile'')] = [py ''agni'', py ''ile'']"
  by (simp add: py_split_def py_def py_isspace_def clean_text_svara_word lbrace_def rbrace_def
      ascii_digit_def line_words_split)

section \<open>Counting markers and weighing words\<close>

lemma svara_matches_skip: "a \<noteq> lbrace \<Longrightarrow> svara_matches (a # s) = svara_matches s"
  by (cases s rule: svara_matches.cases) simp_all

lemma svara_matches_append:
  assumes "c \<noteq> rbrace" "\<not> re_digit c"
  shows "svara_matches (p @ c # q) = svara_matches p @ svara_matches (c # q)"
proof (induction p rule: svara_matches.induct)
  case (1 a d b rest)
  then show ?case by simp
next
  case "2_1"
  show ?case by simp
next
  case "2_2"
  show ?case using assms by (cases q) simp_all
next
  case "2_3"
  show ?case using assms by (cases q) simp_all
qed

lemma svara_matches_digits:
  "list_all ascii_digit ds \<Longrightarrow> svara_matches (ds @ rbrace # q) = svara_matches q"
proof (induction ds)
  case Nil
  show ?case by (simp add: svara_matches_skip brace_not_digit(3) [symmetric])
next
  case (Cons d ds)
  then have "d \<noteq> lbrace" using brace_not_digit(1) by auto
  with Cons show ?case by (simp add: svara_matches_skip)
qed

lemma svara_matches_marker:
  assumes "ds \<noteq> []" "list_all ascii_digit ds"
  shows "svara_matches (lbrace # ds @ rbrace # q) =
    (if length ds = 1 then [ds] else []) @ svara_matches q"
proof -
  consider d where "ds = [d]" | d e ds' where "ds = d # e # ds'"
    using assms(1) by (cases ds rule: svara_matches.cases) (auto intro: that)
  then show ?thesis
  proof cases
    case 1
    with assms show ?thesis by (simp add: ascii_digit_re_digit)
  next
    case 2
    have "e \<noteq> rbrace" using 2 assms(2) brace_not_digit(2) by auto
    moreover have "svara_matches (ds @ rbrace # q) = svara_matches q"
      using assms(2) by (rule svara_matches_digits)
    ultimately show ?thesis using 2 by simp
  qed
qed

lemma count_svaras_append:
  "count_svaras (ms @ ns) cnts = count_svaras ns (count_svaras ms cnts)"
  by (induction ms arbitrary: cnts) simp_all

lemma count_svaras_four:
  "count_svaras ms [(py ''0'', a), (py ''1'', b), (py ''2'', c), (py ''5'', d)] =
     [(py ''0'', a + count_list ms (py ''0'')), (py ''1'', b + count_list ms (py ''1'')),
      (py ''2'', c + count_list ms (py ''2'')), (py ''5'', d + count_list ms (py ''5''))]"
  by (induction ms arbitrary: a b c d) (auto simp: py_def)

lemma svara_counts_word:
  "svara_counts (svara_word raw_word) =
     [(py ''0'', count_list (svara_matches raw_word) (py ''0'')),
      (py ''1'', count_list (svara_matches raw_word) (py ''1'')),
      (py ''2'', count_list (svara_matches raw_word) (py ''2'')),
      (py ''5'', count_list (svara_matches raw_word) (py ''5''))]"
  by (simp add: svara_word_def extract_svara_info_def Let_def count_svaras_four)

lemma calculate_svara_weight_four:
  "calculate_svara_weight [(py ''0'', a), (py ''1'', b), (py ''2'', c), (py ''5'', d)] =
     0.0 * real a + 0.0 * real b + 0.08 * real c + 0.20 * real d"
  by (simp add: calculate_svara_weight_def SVARA_WEIGHTS_def py_def)

lemma weight_svara_word:
  "weight (svara_word raw_word) =
     0.08 * real (count_list (svara_matches raw_word) (py ''2'')) +
     0.20 * real (count_list (svara_matches raw_word) (py ''5''))"
proof -
  have "weight (svara_word raw_word) = calculate_svara_weight (svara_counts (svara_word raw_word))"
    by (simp add: svara_word_def Let_def)
  then show ?thesis
    by (simp only: svara_counts_word calculate_svara_weight_four)
qed

lemma count_list_append: "count_list (xs @ ys) k = count_list xs k + count_list ys k"
  by (induction xs) simp_all

lemma extract_words_are_svara_words:
  "w \<in> set (extract_words_with_svaras samhita_lines) \<Longrightarrow> \<exists>raw_word. w = svara_word raw_word"
  by (induction samhita_lines rule: extract_words_with_svaras.induct) auto


lemma svara_matches_around_marker:
  assumes "ds \<noteq> []" "list_all ascii_digit ds"
  shows "svara_matches (p @ lbrace # ds @ rbrace # q) =
    svara_matches p @ (if length ds = 1 then [ds] else []) @ svara_matches q"
  using svara_matches_marker [OF assms]
  by (simp add: svara_matches_append brace_not_digit)

lemma count_list_around_marker:
  assumes "ds \<noteq> []" "list_all ascii_digit ds" "k \<noteq> ds"
  shows "count_list (svara_matches (p @ lbrace # ds @ rbrace # q)) k =
    count_list (svara_matches p) k + count_list (svara_matches q) k"
  using assms by (simp add: svara_matches_around_marker count_list_append)

text \<open>
  A marker with a code in ASCII digits other than \<open>0\<close>, \<open>1\<close>, \<open>2\<close>, \<open>5\<close> changes nothing
  but itself: in a raw token \<open>p {ds} q\<close> it is removed from the clean text, which is the
  clean text of \<open>p\<close> followed by that of \<open>q\<close>; every marker count, the svara weight and the
  total weight of the word are those of \<open>p\<close> and \<open>q\<close> added up.
\<close>

lemma unknown_marker_ignored:
  assumes "ds \<noteq> []" and "list_all ascii_digit ds"
    and "ds \<notin> {py ''0'', py ''1'', py ''2'', py ''5''}"
  shows "clean_text (svara_word (p @ lbrace # ds @ rbrace # q)) =
      clean_text (svara_word p) @ clean_text (svara_word q) \<and>
    (\<forall>k. dict_get (svara_counts (svara_word (p @ lbrace # ds @ rbrace # q))) k 0 =
      dict_get (svara_counts (svara_word p)) k 0 + dict_get (svara_counts (svara_word q)) k 0) \<and>
    weight (svara_word (p @ lbrace # ds @ rbrace # q)) =
      weight (svara_word p) + weight (svara_word q) \<and>
    w_total_weight (word_weight i (svara_word (p @ lbrace # ds @ rbrace # q))) =
      w_total_weight (word_weight i (svara_word p)) + w_total_weight (word_weight i (svara_word q))"
proof -
  let ?raw = "p @ lbrace # ds @ rbrace # q"
  have c: "clean_text (svara_word ?raw) = clean_text (svara_word p) @ clean_text (svara_word q)"
    using assms(1,2) by (simp add: clean_text_svara_word sub_markers_marker)
  have n: "count_list (svara_matches ?raw) k =
      count_list (svara_matches p) k + count_list (svara_matches q) k"
    if "k \<in> {py ''0'', py ''1'', py ''2'', py ''5''}" for k
    using assms that by (intro count_list_around_marker) auto
  have d: "dict_get (svara_counts (svara_word ?raw)) k 0 =
      dict_get (svara_counts (svara_word p)) k 0 + dict_get (svara_counts (svara_word q)) k 0" for k
    using n [of "py ''0''"] n [of "py ''1''"] n [of "py ''2''"] n [of "py ''5''"]
    by (simp add: svara_counts_word)
  have w: "weight (svara_word ?raw) = weight (svara_word p) + weight (svara_word q)"
    using n [of "py ''2''"] n [of "py ''5''"]
    by (simp add: weight_svara_word algebra_simps)
  have t: "w_total_weight (word_weight i (svara_word ?raw)) =
      w_total_weight (word_weight i (svara_word p)) + w_total_weight (word_weight i (svara_word q))"
    using c w by (simp add: word_weight_def Let_def algebra_simps)
  from c d w t show ?thesis by blast
qed

lemma unknown_marker_ignored_example:
  "clean_text (svara_word (py ''ag{3}ni{2}'')) = py ''agni'' \<and>
   svara_counts (svara_word (py ''ag{3}ni{2}'')) = svara_counts (svara_word (py ''agni{2}'')) \<and>
   weight (svara_word (py ''ag{3}ni{2}'')) = weight (svara_word (py ''agni{2}'')) \<and>
   clean_text (svara_word (py ''{12}'')) = [] \<and>
   weight (svara_word (py ''{12}'')) = 0"
proof -
  have a: "py ''ag{3}ni{2}'' = py ''ag'' @ lbrace # py ''3'' @ rbrace # py ''ni{2}''"
    and b: "py ''{12}'' = [] @ lbrace # py ''12'' @ rbrace # []"
    by (simp_all add: py_def lbrace_def rbrace_def)
  have h3: "py ''3'' \<noteq> []" "list_all ascii_digit (py ''3'')"
      "py ''3'' \<notin> {py ''0'', py ''1'', py ''2'', py ''5''}"
    and h12: "py ''12'' \<noteq> []" "list_all ascii_digit (py ''12'')"
      "py ''12'' \<notin> {py ''0'', py ''1'', py ''2'', py ''5''}"
    by (simp_all add: py_def ascii_digit_def)
  note u3 = unknown_marker_ignored [OF h3, of "py ''ag''" "py ''ni{2}''" 0, folded a]
  note u12 = unknown_marker_ignored [OF h12, of "[]" "[]" 0, folded b]
  have e: "clean_text (svara_word (py ''ag'')) = py ''ag''"
      "clean_text (svara_word (py ''ni{2}'')) = py ''ni''"
      "clean_text (svara_word []) = []"
      "weight (svara_word (py ''ag'')) = 0"
      "weight (svara_word []) = 0"
      "weight (svara_word (py ''agni{2}'')) = weight (svara_word (py ''ni{2}''))"
      "svara_counts (svara_word (py ''ag{3}ni{2}'')) = svara_counts (svara_word (py ''agni{2}''))"
    by (simp_all add: clean_text_svara_word weight_svara_word svara_counts_word py_def lbrace_def
        rbrace_def ascii_digit_def re_digit_def nd_blocks_def)
  from u3 u12 e show ?thesis by (simp add: py_def)
qed

section \<open>Matching and redistribution\<close>

lemma adjust_timing_matched:
  "adjust_timing sync words =
    (case matched_words (get_fragments sync) words of
       None \<Rightarrow> Inr sync
     | Some ws \<Rightarrow> redistribute (get_fragments sync) ws)"
  by (simp add: adjust_timing_def matched_words_def Let_def)

lemma first_word_find:
  "first_word txt words = find (\<lambda>w. py_strip (clean_text w) = py_strip txt) words"
  by (induction words) simp_all

lemma match_by_text_length: "length (match_by_text frags words) \<le> length frags"
  by (induction frags) (auto split: option.splits)

lemma match_by_text_complete:
  "length (match_by_text frags words) = length frags \<longleftrightarrow>
     (\<forall>f\<in>set frags. first_word (frag_text f) words \<noteq> None)"
proof (induction frags)
  case Nil
  show ?case by simp
next
  case (Cons f fs)
  show ?case
  proof (cases "first_word (frag_text f) words")
    case None
    have "length (match_by_text fs words) \<le> length fs" by (rule match_by_text_length)
    with None show ?thesis by auto
  next
    case (Some w)
    with Cons show ?thesis by auto
  qed
qed

lemma match_by_text_words:
  "length (match_by_text frags words) = length frags \<Longrightarrow>
   map snd (match_by_text frags words) = map (\<lambda>f. the (first_word (frag_text f) words)) frags"
proof (induction frags)
  case Nil
  show ?case by simp
next
  case (Cons f fs)
  from Cons.prems have all: "\<forall>g\<in>set (f # fs). first_word (frag_text g) words \<noteq> None"
    by (simp only: match_by_text_complete)
  then have "length (match_by_text fs words) = length fs"
    by (simp add: match_by_text_complete)
  with Cons.IH all show ?case by auto
qed

lemma matched_words_length: "matched_words frags words = Some ws \<Longrightarrow> length ws = length frags"
  by (auto simp: matched_words_def split: if_splits)

lemma matched_words_None_iff:
  "matched_words frags words = None \<longleftrightarrow>
     length frags \<noteq> length words \<and>
     (\<exists>f\<in>set frags. \<forall>w\<in>set words. py_strip (clean_text w) \<noteq> py_strip (frag_text f))"
proof -
  have "length (match_by_text frags words) \<noteq> length frags \<longleftrightarrow>
      (\<exists>f\<in>set frags. \<forall>w\<in>set words. py_strip (clean_text w) \<noteq> py_strip (frag_text f))"
    by (auto simp: match_by_text_complete first_word_find find_None_iff)
  then show ?thesis by (auto simp: matched_words_def)
qed

lemma matched_words_first:
  assumes "length frags \<noteq> length words" "matched_words frags words = Some ws" "k < length frags"
  shows "\<exists>i<length words. ws ! k = words ! i \<and>
      py_strip (clean_text (words ! i)) = py_strip (frag_text (frags ! k)) \<and>
      (\<forall>j<i. py_strip (clean_text (words ! j)) \<noteq> py_strip (frag_text (frags ! k)))"
proof -
  from assms(1,2) have len: "length (match_by_text frags words) = length frags"
    and ws: "ws = map snd (match_by_text frags words)"
    by (auto simp: matched_words_def split: if_splits)
  from len assms(3) have "first_word (frag_text (frags ! k)) words \<noteq> None"
    by (simp add: match_by_text_complete)
  then obtain w where w: "first_word (frag_text (frags ! k)) words = Some w" by auto
  have "ws ! k = w"
    using ws match_by_text_words [OF len] assms(3) w by simp
  with w show ?thesis
    unfolding first_word_find find_Some_iff by auto
qed


text \<open>The weights of the matched words.\<close>

lemma total_weight_index: "w_total_weight (word_weight i word) = total_weight_of word"
  by (simp add: word_weight_def total_weight_of_def Let_def)

lemma word_weights_loop_totals:
  "map w_total_weight (word_weights_loop i pairs) = map (\<lambda>p. total_weight_of (snd p)) pairs"
  by (induction i pairs rule: word_weights_loop.induct) (simp_all add: total_weight_index)

lemma word_weights_loop_length: "length (word_weights_loop i pairs) = length pairs"
  by (induction i pairs rule: word_weights_loop.induct) simp_all

lemma word_weights_totals:
  "length ws = length frags \<Longrightarrow>
   map w_total_weight (word_weights_loop 0 (zip frags ws)) = map total_weight_of ws"
proof -
  assume len: "length ws = length frags"
  have "map (\<lambda>p. total_weight_of (snd p)) (zip frags ws) =
      map total_weight_of (map snd (zip frags ws))"
    by simp
  also have "map snd (zip frags ws) = ws"
    using len by simp
  finally show ?thesis
    by (simp only: word_weights_loop_totals)
qed

text \<open>Rendering with three digits moves a value by at most half a millisecond.\<close>

lemma round_half_even_close: "\<bar>real_of_int (round_half_even x) - x\<bar> \<le> 1 / 2"
proof -
  have "real_of_int \<lfloor>x\<rfloor> \<le> x" "x < real_of_int \<lfloor>x\<rfloor> + 1" by linarith+
  then show ?thesis
    by (auto simp: round_half_even_def Let_def)
qed

lemma fmt3_close: "\<bar>fmt3 x - x\<bar> \<le> 1 / 2000"
proof -
  have "\<bar>real_of_int (round_half_even (x * 1000)) - x * 1000\<bar> \<le> 1 / 2"
    by (rule round_half_even_close)
  then show ?thesis by (simp add: fmt3_def field_simps)
qed

lemma round_half_even_int: "round_half_even (real_of_int k) = k"
  by (simp add: round_half_even_def)

lemma fmt3_milli: "fmt3 (real_of_int k / 1000) = real_of_int k / 1000"
  by (simp add: fmt3_def round_half_even_int)

text \<open>The redistribution loop.\<close>

lemma adjust_loop_zero:
  "pairs \<noteq> [] \<Longrightarrow> adjust_loop T 0 ct pairs = Inl ZeroDivisionError"
  by (cases pairs) (auto simp: Let_def)

lemma adjust_loop_returns:
  "W \<noteq> 0 \<Longrightarrow> \<exists>out. adjust_loop T W ct pairs = Inr out"
proof (induction pairs arbitrary: ct)
  case Nil
  show ?case by simp
next
  case (Cons p ps)
  obtain frag wi where p: "p = (frag, wi)" by (cases p)
  from Cons.IH [OF Cons.prems, of "ct + T * (w_total_weight wi / W)"]
  obtain out where "adjust_loop T W (ct + T * (w_total_weight wi / W)) ps = Inr out" by blast
  with p Cons.prems show ?case by (simp add: Let_def)
qed

lemma adjust_loop_Cons:
  assumes "adjust_loop T W ct ((frag, wi) # ps) = Inr out"
  obtains out' where "W \<noteq> 0"
    and "adjust_loop T W (ct + T * (w_total_weight wi / W)) ps = Inr out'"
    and "out = frag \<lparr> f_begin := fmt3 ct,
                     f_end := fmt3 (ct + T * (w_total_weight wi / W)),
                     lines_with_svaras := Some [w_text_with_svaras wi],
                     svara_info := Some \<lparr> counts = w_svara_counts wi,
                                         bonus = w_svara_bonus wi,
                                         original_duration = f_end frag - f_begin frag,
                                         adjusted_duration = T * (w_total_weight wi / W) \<rparr> \<rparr> # out'"
  using assms by (auto simp: Let_def split: if_splits sum.splits)

lemma adjust_loop_durations:
  "adjust_loop T W ct pairs = Inr out \<Longrightarrow>
   adjusted_durations out = map (\<lambda>p. T * (w_total_weight (snd p) / W)) pairs \<and>
   length out = length pairs"
proof (induction pairs arbitrary: ct out)
  case Nil
  then show ?case by simp
next
  case (Cons p ps)
  obtain frag wi where p: "p = (frag, wi)" by (cases p)
  from Cons.prems [unfolded p] obtain out' where
    r: "adjust_loop T W (ct + T * (w_total_weight wi / W)) ps = Inr out'"
    and o: "out = frag \<lparr> f_begin := fmt3 ct,
                     f_end := fmt3 (ct + T * (w_total_weight wi / W)),
                     lines_with_svaras := Some [w_text_with_svaras wi],
                     svara_info := Some \<lparr> counts = w_svara_counts wi,
                                         bonus = w_svara_bonus wi,
                                         original_duration = f_end frag - f_begin frag,
                                         adjusted_duration = T * (w_total_weight wi / W) \<rparr> \<rparr> # out'"
    by (rule adjust_loop_Cons)
  from Cons.IH [OF r] p o show ?case by simp
qed

text \<open>The boundaries written by the loop: where they start, that they are contiguous, where they end.\<close>

lemma adjust_loop_boundaries:
  "adjust_loop T W ct pairs = Inr out \<Longrightarrow> pairs \<noteq> [] \<Longrightarrow>
   f_begin (hd out) = fmt3 ct \<and>
   (\<forall>i. Suc i < length out \<longrightarrow> f_begin (out ! Suc i) = f_end (out ! i)) \<and>
   f_end (last out) = fmt3 (ct + sum_list (map (\<lambda>p. T * (w_total_weight (snd p) / W)) pairs))"
proof (induction pairs arbitrary: ct out)
  case Nil
  then show ?case by simp
next
  case (Cons p ps)
  obtain frag wi where p: "p = (frag, wi)" by (cases p)
  let ?d = "T * (w_total_weight wi / W)"
  from Cons.prems(1) [unfolded p] obtain out' where
    r: "adjust_loop T W (ct + ?d) ps = Inr out'"
    and o: "out = frag \<lparr> f_begin := fmt3 ct,
                     f_end := fmt3 (ct + ?d),
                     lines_with_svaras := Some [w_text_with_svaras wi],
                     svara_info := Some \<lparr> counts = w_svara_counts wi,
                                         bonus = w_svara_bonus wi,
                                         original_duration = f_end frag - f_begin frag,
                                         adjusted_duration = ?d \<rparr> \<rparr> # out'"
    by (rule adjust_loop_Cons)
  show ?case
  proof (cases ps)
    case Nil
    with r have "out' = []" by simp
    with o p Nil show ?thesis by simp
  next
    case (Cons q qs)
    then have ne: "ps \<noteq> []" by simp
    from Cons.IH [OF r ne] have
      b: "f_begin (hd out') = fmt3 (ct + ?d)"
      and c: "\<forall>i. Suc i < length out' \<longrightarrow> f_begin (out' ! Suc i) = f_end (out' ! i)"
      and e: "f_end (last out') = fmt3 (ct + ?d + sum_list (map (\<lambda>p. T * (w_total_weight (snd p) / W)) ps))"
      by auto
    from r ne have ne': "out' \<noteq> []" by (cases ps) (auto simp: Let_def split: if_splits sum.splits)
    have "f_begin (out ! Suc i) = f_end (out ! i)" if "Suc i < length out" for i
    proof (cases i)
      case 0
      with o b ne' show ?thesis by (simp add: hd_conv_nth)
    next
      case (Suc j)
      with that o c show ?thesis by simp
    qed
    with o e ne' p show ?thesis by (simp add: add.assoc)
  qed
qed


text \<open>The part of \<open>adjust_timing\<close> behind the matching.\<close>

lemma redistribute_empty: "redistribute [] ws = Inl IndexError"
  by (simp add: redistribute_def)

lemma redistribute_zero:
  assumes "frags \<noteq> []" "length ws = length frags" "sum_list (map total_weight_of ws) = 0"
  shows "redistribute frags ws = Inl ZeroDivisionError"
proof -
  have "zip frags (word_weights_loop 0 (zip frags ws)) \<noteq> []"
    using assms(1,2) by (cases frags; cases ws) auto
  then show ?thesis
    using assms by (simp add: redistribute_def Let_def word_weights_totals adjust_loop_zero)
qed

lemma redistribute_Inr:
  assumes "redistribute frags ws = Inr out" "length ws = length frags"
  obtains adj where "frags \<noteq> []" "sum_list (map total_weight_of ws) \<noteq> 0"
    "out = \<lparr> fragments = Some adj \<rparr>"
    "adjust_loop (f_end (last frags) - f_begin (hd frags)) (sum_list (map total_weight_of ws))
       (f_begin (hd frags)) (zip frags (word_weights_loop 0 (zip frags ws))) = Inr adj"
proof -
  from assms(1) have ne: "frags \<noteq> []"
    by (auto simp: redistribute_def)
  have nz: "sum_list (map total_weight_of ws) \<noteq> 0"
    using assms redistribute_zero [OF ne assms(2)] by auto
  from assms ne obtain adj where
    "adjust_loop (f_end (last frags) - f_begin (hd frags)) (sum_list (map total_weight_of ws))
       (f_begin (hd frags)) (zip frags (word_weights_loop 0 (zip frags ws))) = Inr adj"
    "out = \<lparr> fragments = Some adj \<rparr>"
    by (auto simp: redistribute_def Let_def word_weights_totals split: sum.splits)
  with ne nz show ?thesis by (intro that)
qed

lemma redistribute_returns:
  assumes "frags \<noteq> []" "length ws = length frags" "sum_list (map total_weight_of ws) \<noteq> 0"
  shows "\<exists>adj. redistribute frags ws = Inr \<lparr> fragments = Some adj \<rparr>"
proof -
  obtain adj where
    "adjust_loop (f_end (last frags) - f_begin (hd frags)) (sum_list (map total_weight_of ws))
       (f_begin (hd frags)) (zip frags (word_weights_loop 0 (zip frags ws))) = Inr adj"
    using adjust_loop_returns [OF assms(3)] by blast
  then show ?thesis
    using assms by (auto simp: redistribute_def Let_def word_weights_totals)
qed

lemma loop_pairs:
  assumes "length ws = length frags"
  shows "map (\<lambda>p. w_total_weight (snd p)) (zip frags (word_weights_loop 0 (zip frags ws))) =
      map total_weight_of ws"
    and "length (zip frags (word_weights_loop 0 (zip frags ws))) = length frags"
proof -
  have l: "length (word_weights_loop 0 (zip frags ws)) = length frags"
    using assms by (simp add: word_weights_loop_length)
  have "map (\<lambda>p. w_total_weight (snd p)) (zip frags (word_weights_loop 0 (zip frags ws))) =
      map w_total_weight (map snd (zip frags (word_weights_loop 0 (zip frags ws))))"
    by simp
  also have "map snd (zip frags (word_weights_loop 0 (zip frags ws))) =
      word_weights_loop 0 (zip frags ws)"
    using l by simp
  finally show "map (\<lambda>p. w_total_weight (snd p)) (zip frags (word_weights_loop 0 (zip frags ws))) =
      map total_weight_of ws"
    using assms by (simp only: word_weights_totals)
  show "length (zip frags (word_weights_loop 0 (zip frags ws))) = length frags"
    using l by simp
qed

lemma shares_sum:
  assumes "W \<noteq> 0" "sum_list xs = W"
  shows "sum_list (map (\<lambda>x. T * (x / W)) xs) = (T::real)"
proof -
  have "sum_list (map (\<lambda>x. T * (x / W)) xs) = T * (sum_list xs / W)"
    by (induction xs) (simp_all add: algebra_simps add_divide_distrib)
  with assms show ?thesis by simp
qed

lemma durations_sum:
  assumes "length ws = length frags" "sum_list (map total_weight_of ws) \<noteq> 0"
  shows "sum_list (map (\<lambda>p. T * (w_total_weight (snd p) / sum_list (map total_weight_of ws)))
      (zip frags (word_weights_loop 0 (zip frags ws)))) = T"
proof -
  let ?W = "sum_list (map total_weight_of ws)"
  have "map (\<lambda>p. T * (w_total_weight (snd p) / ?W)) (zip frags (word_weights_loop 0 (zip frags ws)))
      = map (\<lambda>x. T * (x / ?W))
          (map (\<lambda>p. w_total_weight (snd p)) (zip frags (word_weights_loop 0 (zip frags ws))))"
    by simp
  also have "\<dots> = map (\<lambda>x. T * (x / ?W)) (map total_weight_of ws)"
    by (simp only: loop_pairs(1) [OF assms(1)])
  finally show ?thesis
    using shares_sum [OF assms(2) refl] by simp
qed

lemma spans_telescope:
  assumes "out \<noteq> []" "\<forall>i. Suc i < length out \<longrightarrow> f_begin (out ! Suc i) = f_end (out ! i)"
  shows "sum_list (map (\<lambda>f. f_end f - f_begin f) out) = f_end (last out) - f_begin (hd out)"
  using assms
proof (induction out)
  case Nil
  then show ?case by simp
next
  case (Cons a out)
  show ?case
  proof (cases out)
    case Nil
    then show ?thesis by simp
  next
    case (Cons b bs)
    have c: "\<forall>i. Suc i < length out \<longrightarrow> f_begin (out ! Suc i) = f_end (out ! i)"
      using Cons.prems(2) by auto
    have "f_begin (hd out) = f_end a"
      using Cons.prems(2) Cons by (auto simp: hd_conv_nth dest: spec [of _ 0])
    with Cons.IH [OF _ c] Cons show ?thesis by simp
  qed
qed


text \<open>\<open>adjust_timing\<close> as a whole.\<close>

lemma adjust_timing_adjusted:
  assumes "matched_words (get_fragments sync) words = Some ws"
    and "adjust_timing sync words = Inr out"
  obtains adj where "get_fragments sync \<noteq> []" "sum_list (map total_weight_of ws) \<noteq> 0"
    "length ws = length (get_fragments sync)"
    "out = \<lparr> fragments = Some adj \<rparr>"
    "adjust_loop (f_end (last (get_fragments sync)) - f_begin (hd (get_fragments sync)))
       (sum_list (map total_weight_of ws)) (f_begin (hd (get_fragments sync)))
       (zip (get_fragments sync) (word_weights_loop 0 (zip (get_fragments sync) ws))) = Inr adj"
proof -
  have len: "length ws = length (get_fragments sync)"
    using assms(1) by (rule matched_words_length)
  from assms have "redistribute (get_fragments sync) ws = Inr out"
    by (simp add: adjust_timing_matched)
  from this len show ?thesis
    by (rule redistribute_Inr) (use len in \<open>auto intro: that\<close>)
qed

lemma adjust_timing_returns:
  assumes "matched_words (get_fragments sync) words = Some ws"
    and "get_fragments sync \<noteq> []" and "sum_list (map total_weight_of ws) \<noteq> 0"
  shows "\<exists>adj. adjust_timing sync words = Inr \<lparr> fragments = Some adj \<rparr>"
  using assms redistribute_returns [OF assms(2) matched_words_length [OF assms(1)] assms(3)]
  by (simp add: adjust_timing_matched)

lemma py_strip_ascii [simp]:
  "py_strip (py ''agni'') = py ''agni''" "py_strip (py ''ile'') = py ''ile''"
  "py_strip (py ''puro'') = py ''puro''" "py_strip (py ''hitam'') = py ''hitam''"
  by (simp_all add: py_strip_def py_def py_isspace_def)

lemma process_batch_append:
  "process_batch (before @ (verse_load, sync_load) # after) =
     process_batch before @ process_verse verse_load sync_load # process_batch after"
  by (induction before rule: process_batch.induct) simp_all

lemma total_weight_of_svara_word:
  "total_weight_of (svara_word raw_word) =
     0.1 * real (length (sub_markers raw_word)) +
     0.08 * real (count_list (svara_matches raw_word) (py ''2'')) +
     0.20 * real (count_list (svara_matches raw_word) (py ''5''))"
  by (simp add: total_weight_of_def word_weight_def Let_def base_weight_per_char_def
      clean_text_svara_word weight_svara_word)

lemma zero_weight_words:
  "sum_list (map total_weight_of (map svara_word raws)) = 0 \<longleftrightarrow>
     (\<forall>r\<in>set raws. clean_text (svara_word r) = [] \<and> weight (svara_word r) = 0)"
proof -
  have nn: "0 \<le> total_weight_of (svara_word r)" for r
    by (simp add: total_weight_of_svara_word)
  have z: "total_weight_of (svara_word r) = 0 \<longleftrightarrow>
      clean_text (svara_word r) = [] \<and> weight (svara_word r) = 0" for r
    by (auto simp: total_weight_of_svara_word clean_text_svara_word weight_svara_word
        add_nonneg_eq_0_iff)
  have "sum_list (map total_weight_of (map svara_word raws)) = 0 \<longleftrightarrow>
      (\<forall>x\<in>set (map total_weight_of (map svara_word raws)). x = 0)"
    using nn by (intro sum_list_nonneg_eq_0_iff) auto
  then show ?thesis using z by auto
qed

section \<open>The adjusted timing\<close>

text \<open>
  C1.  When the matching succeeds and \<open>adjust_timing\<close> returns a result, every fragment of
  the result carries an adjusted duration, and the adjusted durations add up to the span
  \<open>T\<close> from the begin of the first original fragment to the end of the last one.  With
  floats read as real numbers the sum is \<open>T\<close> itself, hence within 0.001 of it; the durations
  read off the rendered boundaries (end minus begin of every adjusted fragment) add up to
  \<open>T\<close> within 0.001 as well.  By \<open>adjust_timing_returns\<close> a result is returned whenever the
  matching succeeds, there is a fragment and the total weight is not zero.
\<close>

theorem adjusted_durations_sum:
  assumes "matched_words (get_fragments sync) words = Some ws"
    and "adjust_timing sync words = Inr out"
  shows "length (adjusted_durations (get_fragments out)) = length (get_fragments sync) \<and>
    sum_list (adjusted_durations (get_fragments out)) =
      f_end (last (get_fragments sync)) - f_begin (hd (get_fragments sync)) \<and>
    \<bar>sum_list (adjusted_durations (get_fragments out)) -
      (f_end (last (get_fragments sync)) - f_begin (hd (get_fragments sync)))\<bar> \<le> 1 / 1000 \<and>
    \<bar>sum_list (map (\<lambda>f. f_end f - f_begin f) (get_fragments out)) -
      (f_end (last (get_fragments sync)) - f_begin (hd (get_fragments sync)))\<bar> \<le> 1 / 1000"
proof -
  let ?frags = "get_fragments sync"
  let ?T = "f_end (last ?frags) - f_begin (hd ?frags)"
  let ?W = "sum_list (map total_weight_of ws)"
  let ?pairs = "zip ?frags (word_weights_loop 0 (zip ?frags ws))"
  from assms obtain adj where ne: "?frags \<noteq> []" and nz: "?W \<noteq> 0"
    and len: "length ws = length ?frags" and out: "out = \<lparr> fragments = Some adj \<rparr>"
    and loop: "adjust_loop ?T ?W (f_begin (hd ?frags)) ?pairs = Inr adj"
    by (rule adjust_timing_adjusted)
  have g: "get_fragments out = adj"
    using out by (simp add: get_fragments_def)
  have pl: "length ?pairs = length ?frags"
    using len by (rule loop_pairs(2))
  then have pne: "?pairs \<noteq> []" using ne by auto
  have d: "adjusted_durations adj = map (\<lambda>p. ?T * (w_total_weight (snd p) / ?W)) ?pairs"
    and l: "length adj = length ?pairs"
    using adjust_loop_durations [OF loop] by auto
  have s: "sum_list (map (\<lambda>p. ?T * (w_total_weight (snd p) / ?W)) ?pairs) = ?T"
    using len nz by (rule durations_sum)
  have 1: "length (adjusted_durations adj) = length ?frags"
    unfolding d using pl by simp
  have 2: "sum_list (adjusted_durations adj) = ?T"
    unfolding d by (rule s)
  from adjust_loop_boundaries [OF loop pne]
  have b: "f_begin (hd adj) = fmt3 (f_begin (hd ?frags))"
    and c: "\<forall>i. Suc i < length adj \<longrightarrow> f_begin (adj ! Suc i) = f_end (adj ! i)"
    and e: "f_end (last adj) = fmt3 (f_begin (hd ?frags) + ?T)"
    unfolding s by auto
  have "length adj = length ?frags" by (simp only: l pl)
  with ne have ane: "adj \<noteq> []" by auto
  have "sum_list (map (\<lambda>f. f_end f - f_begin f) adj) =
      fmt3 (f_begin (hd ?frags) + ?T) - fmt3 (f_begin (hd ?frags))"
    using spans_telescope [OF ane c] b e by simp
  moreover have "\<bar>fmt3 (f_begin (hd ?frags) + ?T) - (f_begin (hd ?frags) + ?T)\<bar> \<le> 1 / 2000"
    "\<bar>fmt3 (f_begin (hd ?frags)) - f_begin (hd ?frags)\<bar> \<le> 1 / 2000"
    by (rule fmt3_close)+
  ultimately have 3: "\<bar>sum_list (map (\<lambda>f. f_end f - f_begin f) adj) - ?T\<bar> \<le> 1 / 1000"
    by linarith
  from 1 2 3 show ?thesis unfolding g by simp
qed

text \<open>
  Two fragments from 1.0 to 4.0 and the two words of the line \<open>agni{1}m ii{2}Le\<close>.
\<close>

theorem adjusted_durations_sum_witness:
  "matched_words (get_fragments \<lparr> fragments = Some [aligned 1 2.5 (py ''agni''), aligned 2.5 4 (py ''ile'')] \<rparr>)
     (extract_words_with_svaras [LStr (py ''agni{1}m ii{2}Le'')]) =
     Some (extract_words_with_svaras [LStr (py ''agni{1}m ii{2}Le'')]) \<and>
   (\<exists>out. adjust_timing \<lparr> fragments = Some [aligned 1 2.5 (py ''agni''), aligned 2.5 4 (py ''ile'')] \<rparr>
       (extract_words_with_svaras [LStr (py ''agni{1}m ii{2}Le'')]) = Inr out \<and>
     sum_list (adjusted_durations (get_fragments out)) = 3 \<and>
     length (adjusted_durations (get_fragments out)) = 2)"
proof -
  let ?sync = "\<lparr> fragments = Some [aligned 1 2.5 (py ''agni''), aligned 2.5 4 (py ''ile'')] \<rparr>"
  let ?words = "extract_words_with_svaras [LStr (py ''agni{1}m ii{2}Le'')]"
  have w: "?words = [svara_word (py ''agni{1}m''), svara_word (py ''ii{2}Le'')]"
    by (simp add: py_split_def py_def py_isspace_def)
  have f: "get_fragments ?sync = [aligned 1 2.5 (py ''agni''), aligned 2.5 4 (py ''ile'')]"
    by (simp add: get_fragments_def)
  have m: "matched_words (get_fragments ?sync) ?words = Some ?words"
    unfolding f w by (simp add: matched_words_def)
  have t: "sum_list (map total_weight_of ?words) = 0.98"
    unfolding w
    by (simp add: total_weight_of_def word_weight_def Let_def base_weight_per_char_def
        clean_text_svara_word weight_svara_word py_def lbrace_def rbrace_def ascii_digit_def
        re_digit_def nd_blocks_def)
  have ne: "get_fragments ?sync \<noteq> []" unfolding f by simp
  have nz: "sum_list (map total_weight_of ?words) \<noteq> 0" unfolding t by simp
  have "\<exists>adj. adjust_timing ?sync ?words = Inr \<lparr> fragments = Some adj \<rparr>"
    using m ne nz by (rule adjust_timing_returns)
  then obtain out where o: "adjust_timing ?sync ?words = Inr out" by blast
  from adjusted_durations_sum [OF m o, unfolded f] have
    "sum_list (adjusted_durations (get_fragments out)) = 3"
    "length (adjusted_durations (get_fragments out)) = 2"
    by (simp_all add: aligned_def)
  with m o show ?thesis by blast
qed

text \<open>
  C2 (as amended).  In every adjusted sequence returned by \<open>adjust_timing\<close> there are as many
  fragments as in the input, the first adjusted begin is the original first begin rendered
  with three fractional digits (so it is the original first begin whenever that is a whole
  number of milliseconds), and for every \<open>i > 0\<close> the adjusted begin of fragment \<open>i\<close> is the
  adjusted end of fragment \<open>i - 1\<close>.
\<close>

theorem adjusted_fragments_contiguous:
  assumes "matched_words (get_fragments sync) words = Some ws"
    and "adjust_timing sync words = Inr out"
  shows "length (get_fragments out) = length (get_fragments sync) \<and>
    f_begin (hd (get_fragments out)) = fmt3 (f_begin (hd (get_fragments sync))) \<and>
    ((\<exists>k. f_begin (hd (get_fragments sync)) = real_of_int k / 1000) \<longrightarrow>
       f_begin (hd (get_fragments out)) = f_begin (hd (get_fragments sync))) \<and>
    (\<forall>i. 0 < i \<and> i < length (get_fragments out) \<longrightarrow>
       f_begin (get_fragments out ! i) = f_end (get_fragments out ! (i - 1)))"
proof -
  let ?frags = "get_fragments sync"
  let ?T = "f_end (last ?frags) - f_begin (hd ?frags)"
  let ?W = "sum_list (map total_weight_of ws)"
  let ?pairs = "zip ?frags (word_weights_loop 0 (zip ?frags ws))"
  from assms obtain adj where ne: "?frags \<noteq> []"
    and len: "length ws = length ?frags" and out: "out = \<lparr> fragments = Some adj \<rparr>"
    and loop: "adjust_loop ?T ?W (f_begin (hd ?frags)) ?pairs = Inr adj"
    by (rule adjust_timing_adjusted)
  have g: "get_fragments out = adj"
    using out by (simp add: get_fragments_def)
  have pl: "length ?pairs = length ?frags"
    using len by (rule loop_pairs(2))
  then have pne: "?pairs \<noteq> []" using ne by auto
  have "length adj = length ?pairs"
    using adjust_loop_durations [OF loop] by blast
  then have l: "length adj = length ?frags" by (simp only: pl)
  from adjust_loop_boundaries [OF loop pne]
  have b: "f_begin (hd adj) = fmt3 (f_begin (hd ?frags))"
    and c: "\<forall>i. Suc i < length adj \<longrightarrow> f_begin (adj ! Suc i) = f_end (adj ! i)"
    by auto
  have m: "f_begin (hd adj) = f_begin (hd ?frags)"
    if "\<exists>k. f_begin (hd ?frags) = real_of_int k / 1000"
  proof -
    from that obtain k where k: "f_begin (hd ?frags) = real_of_int k / 1000" by blast
    show ?thesis unfolding b k by (rule fmt3_milli)
  qed
  have n: "f_begin (adj ! i) = f_end (adj ! (i - 1))" if "0 < i \<and> i < length adj" for i
    using that c [rule_format, of "i - 1"] by simp
  from l b m n show ?thesis unfolding g by blast
qed

text \<open>
  The same two fragments: the first begin, 1.0, is kept.
\<close>

theorem adjusted_fragments_contiguous_witness:
  "matched_words (get_fragments \<lparr> fragments = Some [aligned 1 2.5 (py ''agni''), aligned 2.5 4 (py ''ile'')] \<rparr>)
     (extract_words_with_svaras [LStr (py ''agni{1}m ii{2}Le'')]) =
     Some (extract_words_with_svaras [LStr (py ''agni{1}m ii{2}Le'')]) \<and>
   (\<exists>out. adjust_timing \<lparr> fragments = Some [aligned 1 2.5 (py ''agni''), aligned 2.5 4 (py ''ile'')] \<rparr>
       (extract_words_with_svaras [LStr (py ''agni{1}m ii{2}Le'')]) = Inr out \<and>
     length (get_fragments out) = 2 \<and>
     f_begin (hd (get_fragments out)) = 1 \<and>
     f_begin (get_fragments out ! 1) = f_end (get_fragments out ! 0))"
proof -
  let ?sync = "\<lparr> fragments = Some [aligned 1 2.5 (py ''agni''), aligned 2.5 4 (py ''ile'')] \<rparr>"
  let ?words = "extract_words_with_svaras [LStr (py ''agni{1}m ii{2}Le'')]"
  have w: "?words = [svara_word (py ''agni{1}m''), svara_word (py ''ii{2}Le'')]"
    by (simp add: py_split_def py_def py_isspace_def)
  have f: "get_fragments ?sync = [aligned 1 2.5 (py ''agni''), aligned 2.5 4 (py ''ile'')]"
    by (simp add: get_fragments_def)
  have m: "matched_words (get_fragments ?sync) ?words = Some ?words"
    unfolding f w by (simp add: matched_words_def)
  have t: "sum_list (map total_weight_of ?words) = 0.98"
    unfolding w
    by (simp add: total_weight_of_def word_weight_def Let_def base_weight_per_char_def
        clean_text_svara_word weight_svara_word py_def lbrace_def rbrace_def ascii_digit_def
        re_digit_def nd_blocks_def)
  have ne: "get_fragments ?sync \<noteq> []" unfolding f by simp
  have nz: "sum_list (map total_weight_of ?words) \<noteq> 0" unfolding t by simp
  have "\<exists>adj. adjust_timing ?sync ?words = Inr \<lparr> fragments = Some adj \<rparr>"
    using m ne nz by (rule adjust_timing_returns)
  then obtain out where o: "adjust_timing ?sync ?words = Inr out" by blast
  have k: "\<exists>k. f_begin (hd [aligned 1 2.5 (py ''agni''), aligned 2.5 4 (py ''ile'')]) =
      real_of_int k / 1000"
    by (rule exI [of _ 1000]) (simp add: aligned_def)
  from adjusted_fragments_contiguous [OF m o, unfolded f] k have
    "length (get_fragments out) = 2"
    "f_begin (hd (get_fragments out)) = 1"
    "f_begin (get_fragments out ! 1) = f_end (get_fragments out ! 0)"
    by (simp_all add: aligned_def)
  with m o show ?thesis by blast
qed

text \<open>
  The claim as it was stated fails when the first fragment begins at 0.0004 seconds: the
  adjusted sequence begins at 0.000.
\<close>

theorem adjusted_begin_is_rendered:
  "boundaries (adjust_timing
      \<lparr> fragments = Some [aligned 0.0004 1 (py ''agni''), aligned 1 2 (py ''ile'')] \<rparr>
      (extract_words_with_svaras [LStr (py ''agni ile'')])) = Inr [(0, 1.143), (1.143, 2)] \<and>
   f_begin (hd (get_fragments
      \<lparr> fragments = Some [aligned 0.0004 1 (py ''agni''), aligned 1 2 (py ''ile'')] \<rparr>)) = 0.0004"
proof -
  let ?sync = "\<lparr> fragments = Some [aligned 0.0004 1 (py ''agni''), aligned 1 2 (py ''ile'')] \<rparr>"
  have w: "extract_words_with_svaras [LStr (py ''agni ile'')] =
      [svara_word (py ''agni''), svara_word (py ''ile'')]"
    by (simp add: py_split_def py_def py_isspace_def)
  have t: "total_weight_of (svara_word (py ''agni'')) = 0.4"
      "total_weight_of (svara_word (py ''ile'')) = 0.3"
    by (simp_all add: total_weight_of_def word_weight_def Let_def base_weight_per_char_def
        clean_text_svara_word weight_svara_word py_def lbrace_def rbrace_def ascii_digit_def
        re_digit_def nd_blocks_def)
  have f: "get_fragments ?sync = [aligned 0.0004 1 (py ''agni''), aligned 1 2 (py ''ile'')]"
    by (simp add: get_fragments_def)
  have "boundaries (adjust_timing ?sync [svara_word (py ''agni''), svara_word (py ''ile'')]) =
      Inr [(0, 1.143), (1.143, 2)]"
    unfolding adjust_timing_matched f
    by (simp add: matched_words_def redistribute_def Let_def total_weight_index t boundaries_def
        get_fragments_def aligned_def fmt3_def round_half_even_def)
  with w f show ?thesis by (simp add: aligned_def)
qed

text \<open>
  C3 (as amended).  When the fragment count differs from the word count, \<open>adjust_timing\<close>
  pairs every fragment, in the original order, with the first word in the original word
  order whose clean text, stripped of surrounding white space, equals the stripped text of
  the fragment.  Every fragment searches the whole word list: a word taken by an earlier
  fragment is not excluded.  The matching is infeasible, and the input returned, exactly
  when some fragment finds no such word.  For the fragments \<open>agni\<close>, \<open>ile\<close> and words with
  the clean texts \<open>agni\<close>, \<open>puro\<close>, \<open>hitam\<close>, \<open>ile\<close> the result is the complete match of
  fragment 0 with word 0 and of fragment 1 with word 3.
\<close>

theorem recovery_takes_first_match:
  assumes "length (get_fragments sync) \<noteq> length words"
  shows "adjust_timing sync words =
      (case matched_words (get_fragments sync) words of
         None \<Rightarrow> Inr sync
       | Some ws \<Rightarrow> redistribute (get_fragments sync) ws) \<and>
    (matched_words (get_fragments sync) words = None \<longleftrightarrow>
      (\<exists>f\<in>set (get_fragments sync). \<forall>w\<in>set words.
         py_strip (clean_text w) \<noteq> py_strip (frag_text f))) \<and>
    (\<forall>ws. matched_words (get_fragments sync) words = Some ws \<longrightarrow>
      length ws = length (get_fragments sync) \<and>
      (\<forall>k<length (get_fragments sync). \<exists>i<length words. ws ! k = words ! i \<and>
         py_strip (clean_text (words ! i)) = py_strip (frag_text (get_fragments sync ! k)) \<and>
         (\<forall>j<i. py_strip (clean_text (words ! j)) \<noteq>
            py_strip (frag_text (get_fragments sync ! k))))) \<and>
    (map frag_text (get_fragments sync) = [py ''agni'', py ''ile''] \<and>
     map clean_text words = [py ''agni'', py ''puro'', py ''hitam'', py ''ile''] \<longrightarrow>
       matched_words (get_fragments sync) words = Some [words ! 0, words ! 3])"
proof -
  have 1: "adjust_timing sync words =
      (case matched_words (get_fragments sync) words of
         None \<Rightarrow> Inr sync
       | Some ws \<Rightarrow> redistribute (get_fragments sync) ws)"
    by (rule adjust_timing_matched)
  have 2: "matched_words (get_fragments sync) words = None \<longleftrightarrow>
      (\<exists>f\<in>set (get_fragments sync). \<forall>w\<in>set words.
         py_strip (clean_text w) \<noteq> py_strip (frag_text f))"
    using assms by (simp add: matched_words_None_iff)
  have 3: "length ws = length (get_fragments sync) \<and>
      (\<forall>k<length (get_fragments sync). \<exists>i<length words. ws ! k = words ! i \<and>
         py_strip (clean_text (words ! i)) = py_strip (frag_text (get_fragments sync ! k)) \<and>
         (\<forall>j<i. py_strip (clean_text (words ! j)) \<noteq>
            py_strip (frag_text (get_fragments sync ! k))))"
    if m: "matched_words (get_fragments sync) words = Some ws" for ws
    using matched_words_length [OF m] matched_words_first [OF assms m] by blast
  have 4: "matched_words (get_fragments sync) words = Some [words ! 0, words ! 3]"
    if e: "map frag_text (get_fragments sync) = [py ''agni'', py ''ile''] \<and>
      map clean_text words = [py ''agni'', py ''puro'', py ''hitam'', py ''ile'']"
  proof -
    from e obtain f0 f1 where f: "get_fragments sync = [f0, f1]"
      and ft: "frag_text f0 = py ''agni''" "frag_text f1 = py ''ile''"
      by auto
    from e obtain w0 w1 w2 w3 where w: "words = [w0, w1, w2, w3]"
      and wt: "clean_text w0 = py ''agni''" "clean_text w1 = py ''puro''"
        "clean_text w2 = py ''hitam''" "clean_text w3 = py ''ile''"
      by auto
    have ne: "py ''agni'' \<noteq> py ''ile''" "py ''puro'' \<noteq> py ''ile''" "py ''hitam'' \<noteq> py ''ile''"
      by (simp_all add: py_def)
    show ?thesis
      unfolding f w by (simp add: matched_words_def ft wt ne)
  qed
  from 1 2 3 4 show ?thesis by blast
qed

text \<open>
  The example of the claim, with the words of the line \<open>agni puro hitam ile\<close>.
\<close>

theorem recovery_takes_first_match_witness:
  "length (get_fragments \<lparr> fragments = Some [aligned 0 1 (py ''agni''), aligned 1 3 (py ''ile'')] \<rparr>)
     \<noteq> length (extract_words_with_svaras [LStr (py ''agni puro hitam ile'')]) \<and>
   matched_words
     (get_fragments \<lparr> fragments = Some [aligned 0 1 (py ''agni''), aligned 1 3 (py ''ile'')] \<rparr>)
     (extract_words_with_svaras [LStr (py ''agni puro hitam ile'')]) =
     Some [svara_word (py ''agni''), svara_word (py ''ile'')] \<and>
   adjust_timing \<lparr> fragments = Some [aligned 0 1 (py ''agni''), aligned 1 3 (py ''ile'')] \<rparr>
     (extract_words_with_svaras [LStr (py ''agni puro hitam ile'')]) =
     redistribute [aligned 0 1 (py ''agni''), aligned 1 3 (py ''ile'')]
       [svara_word (py ''agni''), svara_word (py ''ile'')]"
proof -
  let ?sync = "\<lparr> fragments = Some [aligned 0 1 (py ''agni''), aligned 1 3 (py ''ile'')] \<rparr>"
  let ?words = "extract_words_with_svaras [LStr (py ''agni puro hitam ile'')]"
  have w: "?words = [svara_word (py ''agni''), svara_word (py ''puro''), svara_word (py ''hitam''),
      svara_word (py ''ile'')]"
    by (simp add: py_split_def py_def py_isspace_def)
  have f: "get_fragments ?sync = [aligned 0 1 (py ''agni''), aligned 1 3 (py ''ile'')]"
    by (simp add: get_fragments_def)
  have l: "length (get_fragments ?sync) \<noteq> length ?words"
    unfolding f w by simp
  have ft: "map frag_text (get_fragments ?sync) = [py ''agni'', py ''ile'']"
    unfolding f by (simp add: frag_text_def aligned_def)
  have ct: "map clean_text ?words = [py ''agni'', py ''puro'', py ''hitam'', py ''ile'']"
    unfolding w
    by (simp add: clean_text_svara_word py_def lbrace_def rbrace_def ascii_digit_def)
  note r = recovery_takes_first_match [OF l]
  from r ft ct have m: "matched_words (get_fragments ?sync) ?words = Some [?words ! 0, ?words ! 3]"
    by blast
  then have m': "matched_words (get_fragments ?sync) ?words =
      Some [svara_word (py ''agni''), svara_word (py ''ile'')]"
    unfolding w by simp
  have m'': "matched_words [aligned 0 1 (py ''agni''), aligned 1 3 (py ''ile'')] ?words =
      Some [svara_word (py ''agni''), svara_word (py ''ile'')]"
    using m' unfolding f .
  from r have a: "adjust_timing ?sync ?words =
      (case matched_words (get_fragments ?sync) ?words of
         None \<Rightarrow> Inr ?sync
       | Some ws \<Rightarrow> redistribute (get_fragments ?sync) ws)"
    by blast
  have "adjust_timing ?sync ?words =
      redistribute [aligned 0 1 (py ''agni''), aligned 1 3 (py ''ile'')]
        [svara_word (py ''agni''), svara_word (py ''ile'')]"
    by (rule a [unfolded f m'' option.case])
  with l m' show ?thesis by blast
qed

text \<open>
  The claim as it was stated fails on two fragments \<open>a\<close>, \<open>a\<close>.  With the words \<open>a\<close>,
  \<open>b\<close>, \<open>a{2}\<close> both fragments are paired with the first word, where the matching without
  reuse pairs the second fragment with the third word; with the single word \<open>a\<close> both
  fragments are paired with it, where the matching without reuse is infeasible.
\<close>

theorem recovery_reuses_words:
  "matched_words [aligned 0 1 (py ''a''), aligned 1 2 (py ''a'')]
     [svara_word (py ''a''), svara_word (py ''b''), svara_word (py ''a{2}'')] =
     Some [svara_word (py ''a''), svara_word (py ''a'')] \<and>
   spec_recovery [aligned 0 1 (py ''a''), aligned 1 2 (py ''a'')]
     [svara_word (py ''a''), svara_word (py ''b''), svara_word (py ''a{2}'')] =
     Some [(aligned 0 1 (py ''a''), svara_word (py ''a'')),
           (aligned 1 2 (py ''a''), svara_word (py ''a{2}''))] \<and>
   svara_word (py ''a'') \<noteq> svara_word (py ''a{2}'') \<and>
   matched_words [aligned 0 1 (py ''a''), aligned 1 2 (py ''a'')] [svara_word (py ''a'')] =
     Some [svara_word (py ''a''), svara_word (py ''a'')] \<and>
   spec_recovery [aligned 0 1 (py ''a''), aligned 1 2 (py ''a'')] [svara_word (py ''a'')] = None"
proof -
  have c: "clean_text (svara_word (py ''a'')) = py ''a''"
      "clean_text (svara_word (py ''b'')) = py ''b''"
      "clean_text (svara_word (py ''a{2}'')) = py ''a''"
    by (simp_all add: clean_text_svara_word py_def lbrace_def rbrace_def ascii_digit_def)
  have s: "py_strip (py ''a'') = py ''a''" "py_strip (py ''b'') = py ''b''"
      "py ''a'' \<noteq> py ''b''" "py ''b'' \<noteq> py ''a''"
    by (simp_all add: py_strip_def py_def py_isspace_def)
  have t: "frag_text (aligned 0 1 (py ''a'')) = py ''a''"
      "frag_text (aligned 1 2 (py ''a'')) = py ''a''"
    by (simp_all add: frag_text_def aligned_def)
  have d: "svara_word (py ''a'') \<noteq> svara_word (py ''a{2}'')"
  proof
    assume "svara_word (py ''a'') = svara_word (py ''a{2}'')"
    then have "raw (svara_word (py ''a'')) = raw (svara_word (py ''a{2}''))" by simp
    then show False by (simp add: svara_word_def Let_def py_def)
  qed
  from d show ?thesis
    by (simp add: matched_words_def c s t)
qed

text \<open>
  C4.  When the counts differ and some fragment finds no word of equal text,
  \<open>adjust_timing\<close> returns the sync data it was given, nothing of it rewritten.
  \<open>process_verse\<close> then saves that data and reports success, and the batch goes on with the
  verses that follow.
\<close>

theorem unmatched_returns_input:
  assumes "length (get_fragments sync) \<noteq> length words"
    and "\<exists>f\<in>set (get_fragments sync). \<forall>w\<in>set words.
      py_strip (clean_text w) \<noteq> py_strip (frag_text f)"
  shows "adjust_timing sync words = Inr sync \<and>
    (extract_words_with_svaras samhita_lines = words \<longrightarrow>
      process_verse (Inr samhita_lines) (Inr sync) = Saved sync \<and>
      process_batch (before @ (Inr samhita_lines, Inr sync) # after) =
        process_batch before @ Saved sync # process_batch after)"
proof -
  from assms have "matched_words (get_fragments sync) words = None"
    by (simp add: matched_words_None_iff)
  then have a: "adjust_timing sync words = Inr sync"
    by (simp add: adjust_timing_matched)
  then have "process_verse (Inr samhita_lines) (Inr sync) = Saved sync"
    if "extract_words_with_svaras samhita_lines = words"
    using that by (simp add: process_verse_def)
  with a show ?thesis by (simp add: process_batch_append)
qed

text \<open>
  Two fragments \<open>agni\<close>, \<open>soma\<close> and the three words of the line \<open>agni puro hitam\<close>.
\<close>

theorem unmatched_returns_input_witness:
  "length (get_fragments \<lparr> fragments = Some [aligned 0 1 (py ''agni''), aligned 1 3 (py ''soma'')] \<rparr>)
     \<noteq> length (extract_words_with_svaras [LStr (py ''agni puro hitam'')]) \<and>
   adjust_timing \<lparr> fragments = Some [aligned 0 1 (py ''agni''), aligned 1 3 (py ''soma'')] \<rparr>
     (extract_words_with_svaras [LStr (py ''agni puro hitam'')]) =
     Inr \<lparr> fragments = Some [aligned 0 1 (py ''agni''), aligned 1 3 (py ''soma'')] \<rparr> \<and>
   process_verse (Inr [LStr (py ''agni puro hitam'')])
     (Inr \<lparr> fragments = Some [aligned 0 1 (py ''agni''), aligned 1 3 (py ''soma'')] \<rparr>) =
     Saved \<lparr> fragments = Some [aligned 0 1 (py ''agni''), aligned 1 3 (py ''soma'')] \<rparr>"
proof -
  let ?sync = "\<lparr> fragments = Some [aligned 0 1 (py ''agni''), aligned 1 3 (py ''soma'')] \<rparr>"
  let ?words = "extract_words_with_svaras [LStr (py ''agni puro hitam'')]"
  have w: "?words = [svara_word (py ''agni''), svara_word (py ''puro''), svara_word (py ''hitam'')]"
    by (simp add: py_split_def py_def py_isspace_def)
  have f: "get_fragments ?sync = [aligned 0 1 (py ''agni''), aligned 1 3 (py ''soma'')]"
    by (simp add: get_fragments_def)
  have l: "length (get_fragments ?sync) \<noteq> length ?words"
    unfolding f w by simp
  have "\<forall>w\<in>set ?words. py_strip (clean_text w) \<noteq> py_strip (frag_text (aligned 1 3 (py ''soma'')))"
    unfolding w
    by (simp add: clean_text_svara_word frag_text_def aligned_def py_strip_def py_isspace_def
        py_def lbrace_def rbrace_def ascii_digit_def)
  then have u: "\<exists>f\<in>set (get_fragments ?sync). \<forall>w\<in>set ?words.
      py_strip (clean_text w) \<noteq> py_strip (frag_text f)"
    unfolding f by simp
  from unmatched_returns_input [OF l u, of "[LStr (py ''agni puro hitam'')]" "[]" "[]"] l
  show ?thesis by blast
qed

text \<open>
  C5 (as amended).  When the matching succeeds, there is a fragment and the total weight of
  the matched words is zero, \<open>adjust_timing\<close> raises Python's \<open>ZeroDivisionError\<close> at the
  first division: there is no error of its own for a zero total weight.  \<open>process_verse\<close>
  catches the exception and reports the failure of that verse, and the batch goes on with
  the verses that follow.  By \<open>zero_weight_words\<close> the total weight of words of the verse is
  zero exactly when all of them have an empty clean text and no svara weight.
\<close>

theorem zero_total_weight_raises:
  assumes "matched_words (get_fragments sync) words = Some ws"
    and "get_fragments sync \<noteq> []"
    and "sum_list (map total_weight_of ws) = 0"
  shows "adjust_timing sync words = Inl ZeroDivisionError \<and>
    (extract_words_with_svaras samhita_lines = words \<longrightarrow>
      process_verse (Inr samhita_lines) (Inr sync) = Failed ZeroDivisionError \<and>
      process_batch (before @ (Inr samhita_lines, Inr sync) # after) =
        process_batch before @ Failed ZeroDivisionError # process_batch after)"
proof -
  have "redistribute (get_fragments sync) ws = Inl ZeroDivisionError"
    using assms(2) matched_words_length [OF assms(1)] assms(3) by (rule redistribute_zero)
  with assms(1) have a: "adjust_timing sync words = Inl ZeroDivisionError"
    by (simp add: adjust_timing_matched)
  then have "process_verse (Inr samhita_lines) (Inr sync) = Failed ZeroDivisionError"
    if "extract_words_with_svaras samhita_lines = words"
    using that by (simp add: process_verse_def)
  with a show ?thesis by (simp add: process_batch_append)
qed

text \<open>
  One fragment with an empty text and the two words of the line \<open>{1} {0}\<close>: the recovery path
  pairs the fragment with the first word.
\<close>

theorem zero_total_weight_raises_witness:
  "matched_words (get_fragments \<lparr> fragments = Some [aligned 0 1 []] \<rparr>)
     (extract_words_with_svaras [LStr (py ''{1} {0}'')]) = Some [svara_word (py ''{1}'')] \<and>
   sum_list (map total_weight_of [svara_word (py ''{1}'')]) = 0 \<and>
   adjust_timing \<lparr> fragments = Some [aligned 0 1 []] \<rparr>
     (extract_words_with_svaras [LStr (py ''{1} {0}'')]) = Inl ZeroDivisionError \<and>
   process_verse (Inr [LStr (py ''{1} {0}'')]) (Inr \<lparr> fragments = Some [aligned 0 1 []] \<rparr>) =
     Failed ZeroDivisionError"
proof -
  let ?sync = "\<lparr> fragments = Some [aligned 0 1 []] \<rparr>"
  let ?words = "extract_words_with_svaras [LStr (py ''{1} {0}'')]"
  have w: "?words = [svara_word (py ''{1}''), svara_word (py ''{0}'')]"
    by (simp add: py_split_def py_def py_isspace_def)
  have f: "get_fragments ?sync = [aligned 0 1 []]"
    by (simp add: get_fragments_def)
  have c: "clean_text (svara_word (py ''{1}'')) = []"
    by (simp add: clean_text_svara_word py_def lbrace_def rbrace_def ascii_digit_def)
  have m: "matched_words (get_fragments ?sync) ?words = Some [svara_word (py ''{1}'')]"
    unfolding f w by (simp add: matched_words_def c frag_text_def aligned_def)
  have ne: "get_fragments ?sync \<noteq> []" unfolding f by simp
  have z: "sum_list (map total_weight_of [svara_word (py ''{1}'')]) = 0"
    by (simp add: total_weight_of_svara_word py_def lbrace_def rbrace_def ascii_digit_def
        re_digit_def nd_blocks_def)
  from zero_total_weight_raises [OF m ne z, of "[LStr (py ''{1} {0}'')]" "[]" "[]"] m z
  show ?thesis by simp
qed

text \<open>
  The claim as it was stated fails on a verse whose only token is \<open>{1}\<close>, aligned as one
  fragment: the outcome is the division fault.
\<close>

theorem zero_weight_is_division_fault:
  "adjust_timing \<lparr> fragments = Some [aligned 0 1 (py ''om'')] \<rparr>
     (extract_words_with_svaras [LStr (py ''{1}'')]) = Inl ZeroDivisionError \<and>
   process_verse (Inr [LStr (py ''{1}'')]) (Inr \<lparr> fragments = Some [aligned 0 1 (py ''om'')] \<rparr>) =
     Failed ZeroDivisionError"
proof -
  have w: "extract_words_with_svaras [LStr (py ''{1}'')] = [svara_word (py ''{1}'')]"
    by (simp add: py_split_def py_def py_isspace_def)
  have t: "total_weight_of (svara_word (py ''{1}'')) = 0"
    by (simp add: total_weight_of_svara_word py_def lbrace_def rbrace_def ascii_digit_def
        re_digit_def nd_blocks_def)
  have a: "adjust_timing \<lparr> fragments = Some [aligned 0 1 (py ''om'')] \<rparr> [svara_word (py ''{1}'')] =
      Inl ZeroDivisionError"
    by (simp add: adjust_timing_def get_fragments_def redistribute_def Let_def
        total_weight_index t)
  have "process_verse (Inr [LStr (py ''{1}'')])
      (Inr \<lparr> fragments = Some [aligned 0 1 (py ''om'')] \<rparr>) = Failed ZeroDivisionError"
    by (simp only: process_verse_def sum.case w a)
  with a show ?thesis
    unfolding w by simp
qed

text \<open>
  C7.  Three fragments that begin at 1.0 and end at 4.0, matched with three words of weights
  0.3, 0.5 and 0.2: the adjusted boundaries are [1.0, 1.9], [1.9, 3.4], [3.4, 4.0].
\<close>

theorem redistribution_example:
  assumes "get_fragments sync = [f1, f2, f3]"
    and "map total_weight_of words = [0.3, 0.5, 0.2]"
    and "f_begin f1 = 1.0" and "f_end f3 = 4.0"
  shows "boundaries (adjust_timing sync words) = Inr [(1.0, 1.9), (1.9, 3.4), (3.4, 4.0)]"
proof -
  from assms(2) obtain w1 w2 w3 where w: "words = [w1, w2, w3]"
    and t: "total_weight_of w1 = 0.3" "total_weight_of w2 = 0.5" "total_weight_of w3 = 0.2"
    by auto
  show ?thesis
    unfolding adjust_timing_matched assms(1) w
    by (simp add: matched_words_def redistribute_def Let_def total_weight_index t assms(3,4)
        boundaries_def get_fragments_def fmt3_def round_half_even_def)
qed

text \<open>
  The words of the line \<open>abc defgh ij\<close> have the weights 0.3, 0.5 and 0.2.
\<close>

theorem redistribution_example_witness:
  "get_fragments \<lparr> fragments = Some [aligned 1 2 (py ''abc''), aligned 2 3 (py ''defgh''),
      aligned 3 4 (py ''ij'')] \<rparr> =
     [aligned 1 2 (py ''abc''), aligned 2 3 (py ''defgh''), aligned 3 4 (py ''ij'')] \<and>
   map total_weight_of (extract_words_with_svaras [LStr (py ''abc defgh ij'')]) = [0.3, 0.5, 0.2] \<and>
   boundaries (adjust_timing
     \<lparr> fragments = Some [aligned 1 2 (py ''abc''), aligned 2 3 (py ''defgh''),
          aligned 3 4 (py ''ij'')] \<rparr>
     (extract_words_with_svaras [LStr (py ''abc defgh ij'')])) =
     Inr [(1.0, 1.9), (1.9, 3.4), (3.4, 4.0)]"
proof -
  have f: "get_fragments \<lparr> fragments = Some [aligned 1 2 (py ''abc''), aligned 2 3 (py ''defgh''),
      aligned 3 4 (py ''ij'')] \<rparr> =
      [aligned 1 2 (py ''abc''), aligned 2 3 (py ''defgh''), aligned 3 4 (py ''ij'')]"
    by (simp add: get_fragments_def)
  have t: "map total_weight_of (extract_words_with_svaras [LStr (py ''abc defgh ij'')]) =
      [0.3, 0.5, 0.2]"
    by (simp add: py_split_def py_isspace_def total_weight_of_def word_weight_def Let_def
        base_weight_per_char_def clean_text_svara_word weight_svara_word py_def lbrace_def
        rbrace_def ascii_digit_def re_digit_def nd_blocks_def)
  have b: "f_begin (aligned 1 2 (py ''abc'')) = 1.0" and e: "f_end (aligned 3 4 (py ''ij'')) = 4.0"
    by (simp_all add: aligned_def)
  from redistribution_example [OF f t b e] f t show ?thesis by blast
qed

section \<open>The weight of a word in binary64 arithmetic\<close>

text \<open>
  The exponent found by \<open>binade\<close> is not above the number and not below the range asked for.
\<close>

lemma binade_le: "0 < x \<Longrightarrow> 1 / 2 ^ n \<le> x \<Longrightarrow> 2 powr real_of_int (binade n x) \<le> x"
proof (induction n arbitrary: x)
  case 0
  then show ?case by simp
next
  case (Suc n)
  show ?case
  proof (cases "2 \<le> x")
    case True
    have "1 / 2 ^ n \<le> (1::real)" by simp
    with True have "1 / 2 ^ n \<le> x / 2" by linarith
    with Suc.IH [of "x / 2"] Suc.prems(1) have "2 powr real_of_int (binade n (x / 2)) \<le> x / 2"
      by simp
    then have "2 powr (real_of_int (binade n (x / 2)) + 1) \<le> x"
      by (simp add: powr_add)
    with True show ?thesis by (simp add: add.commute)
  next
    case False
    show ?thesis
    proof (cases "x < 1")
      case True
      from Suc.prems(2) have "1 / 2 ^ n \<le> x * 2" by (simp add: field_simps)
      with Suc.IH [of "x * 2"] Suc.prems(1) have "2 powr real_of_int (binade n (x * 2)) \<le> x * 2"
        by simp
      then have "2 powr (real_of_int (binade n (x * 2)) - 1) \<le> x"
        by (simp add: powr_diff)
      with True False show ?thesis by simp
    next
      case False
      with \<open>\<not> 2 \<le> x\<close> show ?thesis by simp
    qed
  qed
qed

lemma binade_ge: "1 / 2 ^ k \<le> x \<Longrightarrow> - int k \<le> binade n x"
proof (induction n arbitrary: x k)
  case 0
  show ?case by simp
next
  case (Suc n)
  show ?case
  proof (cases "2 \<le> x")
    case True
    then have "1 / 2 ^ 0 \<le> x / 2" by simp
    from Suc.IH [OF this] True show ?thesis by simp
  next
    case False
    show ?thesis
    proof (cases "x < 1")
      case True
      with Suc.prems obtain j where k: "k = Suc j"
        by (cases k) auto
      with Suc.prems have "1 / 2 ^ j \<le> x * 2" by (simp add: field_simps)
      from Suc.IH [OF this] True False k show ?thesis by simp
    next
      case False
      with \<open>\<not> 2 \<le> x\<close> show ?thesis by simp
    qed
  qed
qed

lemma abs_scale:
  assumes "0 < (p::real)"
  shows "\<bar>a - x / p\<bar> * p = \<bar>a * p - x\<bar>"
proof -
  have "a * p - x = (a - x / p) * p"
    using assms by (simp add: left_diff_distrib)
  then have "\<bar>a * p - x\<bar> = \<bar>a - x / p\<bar> * \<bar>p\<bar>"
    by (simp only: abs_mult)
  with assms show ?thesis by simp
qed

text \<open>
  Rounding a number of the normal range moves it by at most its \<open>2 ^ - 53\<close>-th part.
\<close>

lemma round_double_close:
  assumes "1 / 2 ^ 1022 \<le> x"
  shows "\<bar>round_double x - x\<bar> \<le> x * unit_roundoff"
proof -
  have "(0::real) < 1 / 2 ^ 1022" by simp
  with assms have pos: "0 < x" by linarith
  let ?e = "binade 2200 x"
  have "(1::real) / 2 ^ 2200 \<le> 1 / 2 ^ 1022"
    by (intro divide_left_mono power_increasing) simp_all
  with assms have "1 / 2 ^ 2200 \<le> x" by linarith
  with pos have le: "2 powr real_of_int ?e \<le> x" by (rule binade_le)
  have ge: "- 1022 \<le> ?e" using binade_ge [OF assms, of 2200] by simp
  then have ex: "double_exponent x = ?e - 52"
    using pos by (simp add: double_exponent_def)
  let ?p = "2 powr real_of_int (?e - 52)"
  have p: "0 < ?p" by simp
  have r: "round_double x = real_of_int (round_half_even (x / ?p)) * ?p"
    using pos by (simp add: round_double_def ex)
  have "\<bar>real_of_int (round_half_even (x / ?p)) - x / ?p\<bar> \<le> 1 / 2"
    by (rule round_half_even_close)
  then have "\<bar>real_of_int (round_half_even (x / ?p)) - x / ?p\<bar> * ?p \<le> 1 / 2 * ?p"
    using p by (intro mult_right_mono) simp_all
  moreover have "\<bar>real_of_int (round_half_even (x / ?p)) - x / ?p\<bar> * ?p =
      \<bar>real_of_int (round_half_even (x / ?p)) * ?p - x\<bar>"
    using p by (rule abs_scale)
  moreover have "1 / 2 * ?p = 2 powr real_of_int ?e * unit_roundoff"
    by (simp add: powr_diff unit_roundoff_def)
  moreover have "2 powr real_of_int ?e * unit_roundoff \<le> x * unit_roundoff"
    using le by (intro mult_right_mono) (simp_all add: unit_roundoff_def)
  ultimately show ?thesis unfolding r by linarith
qed


lemma round_double_0: "round_double 0 = 0"
  by (simp add: round_double_def)

lemma unit_roundoff_bounds: "0 < unit_roundoff" "unit_roundoff < 1"
  by (simp_all add: unit_roundoff_def)

lemma rel_close_refl: "rel_close 0 x x"
  by (simp add: rel_close_def)

lemma rel_close_zero: "rel_close k a 0 \<Longrightarrow> a = 0"
  by (simp add: rel_close_def)

lemma rel_close_nonneg: "rel_close k a x \<Longrightarrow> 0 \<le> x \<Longrightarrow> 0 \<le> a"
proof -
  assume c: "rel_close k a x" and x: "0 \<le> x"
  have "0 \<le> (1 - unit_roundoff) ^ k"
    using unit_roundoff_bounds by simp
  with x have "0 \<le> x * (1 - unit_roundoff) ^ k" by simp
  with c show ?thesis by (simp add: rel_close_def)
qed

lemma rel_close_mono:
  assumes "rel_close k a x" "0 \<le> x"
  shows "rel_close (Suc k) a x"
proof -
  have l: "(1 - unit_roundoff) ^ Suc k \<le> (1 - unit_roundoff) ^ k"
    using unit_roundoff_bounds by (intro power_decreasing) simp_all
  have u: "(1 + unit_roundoff) ^ k \<le> (1 + unit_roundoff) ^ Suc k"
    using unit_roundoff_bounds by (intro power_increasing) simp_all
  have "x * (1 - unit_roundoff) ^ Suc k \<le> x * (1 - unit_roundoff) ^ k"
    using l assms(2) by (rule mult_left_mono)
  moreover have "x * (1 + unit_roundoff) ^ k \<le> x * (1 + unit_roundoff) ^ Suc k"
    using u assms(2) by (rule mult_left_mono)
  ultimately show ?thesis using assms(1) unfolding rel_close_def by linarith
qed

lemma rel_close_add:
  "rel_close k a x \<Longrightarrow> rel_close k b y \<Longrightarrow> rel_close k (a + b) (x + y)"
  by (simp add: rel_close_def distrib_right)

lemma rel_close_scale:
  assumes "rel_close k a x" "0 \<le> c"
  shows "rel_close k (a * c) (x * c)"
proof -
  from assms have "x * (1 - unit_roundoff) ^ k * c \<le> a * c" "a * c \<le> x * (1 + unit_roundoff) ^ k * c"
    by (simp_all add: rel_close_def mult_right_mono)
  then show ?thesis by (simp add: rel_close_def mult.assoc mult.left_commute mult.commute)
qed

lemma rel_close_round:
  assumes "rel_close k a x" and "a = 0 \<or> 1 / 2 ^ 1022 \<le> a" and "0 \<le> x"
  shows "rel_close (Suc k) (round_double a) x"
proof (cases "a = 0")
  case True
  with assms(1,3) show ?thesis
    by (simp add: round_double_0 rel_close_mono)
next
  case False
  with assms(2) have n: "1 / 2 ^ 1022 \<le> a" by simp
  have "(0::real) < 1 / 2 ^ 1022" by simp
  with n have pos: "0 < a" by linarith
  from round_double_close [OF n] have
    lo: "a * (1 - unit_roundoff) \<le> round_double a" and
    hi: "round_double a \<le> a * (1 + unit_roundoff)"
    by (simp_all add: abs_le_iff algebra_simps)
  from assms(1) have "x * (1 - unit_roundoff) ^ k * (1 - unit_roundoff) \<le> a * (1 - unit_roundoff)"
    using unit_roundoff_bounds by (intro mult_right_mono) (simp_all add: rel_close_def)
  moreover from assms(1) have
    "a * (1 + unit_roundoff) \<le> x * (1 + unit_roundoff) ^ k * (1 + unit_roundoff)"
    using unit_roundoff_bounds by (intro mult_right_mono) (simp_all add: rel_close_def)
  ultimately show ?thesis
    using lo hi by (simp add: rel_close_def mult_ac)
qed

lemma rel_close_normal:
  assumes "rel_close k a x" and "k \<le> 5" and "x = 0 \<or> 1 / 50 \<le> x"
  shows "a = 0 \<or> 1 / 2 ^ 1022 \<le> a"
proof (cases "x = 0")
  case True
  with assms(1) show ?thesis by (simp add: rel_close_zero)
next
  case False
  with assms(3) have x: "1 / 50 \<le> x" by simp
  have "(1 - unit_roundoff) ^ 5 \<le> (1 - unit_roundoff) ^ k"
    using unit_roundoff_bounds assms(2) by (intro power_decreasing) simp_all
  moreover have "1 / 2 \<le> (1 - unit_roundoff) ^ 5"
  proof -
    have "1 + real 5 * (- unit_roundoff) \<le> (1 + (- unit_roundoff)) ^ 5"
      using unit_roundoff_bounds by (intro Bernoulli_inequality) simp
    moreover have "1 / 2 \<le> 1 + real 5 * (- unit_roundoff)"
      by (simp add: unit_roundoff_def)
    ultimately show ?thesis by simp
  qed
  ultimately have h: "1 / 2 \<le> (1 - unit_roundoff) ^ k" by linarith
  have "1 / 50 * (1 / 2) \<le> x * (1 - unit_roundoff) ^ k"
    using x h by (intro mult_mono) simp_all
  with assms(1) have "1 / 100 \<le> a" by (simp add: rel_close_def)
  moreover have "(1::real) / 2 ^ 1022 \<le> 1 / 100"
    by simp
  ultimately show ?thesis by linarith
qed

lemma scaled_count: "1 / 50 \<le> c \<Longrightarrow> c * real n = 0 \<or> 1 / 50 \<le> c * real n"
proof (cases n)
  case 0
  then show ?thesis by simp
next
  case (Suc m)
  assume "1 / 50 \<le> c"
  then have "c * 1 \<le> c * real n"
    using Suc by (intro mult_left_mono) simp_all
  with \<open>1 / 50 \<le> c\<close> have "1 / 50 \<le> c * real n" by linarith
  then show ?thesis ..
qed

lemma rel_close_literal:
  assumes "1 / 50 \<le> c"
  shows "rel_close 2 (round_double (round_double c * real n)) (c * real n)"
proof -
  have c0: "0 \<le> c" using assms by simp
  have "(1::real) / 2 ^ 1022 \<le> 1 / 50" by simp
  with assms have "c = 0 \<or> 1 / 2 ^ 1022 \<le> c" by linarith
  with rel_close_refl [of c] c0 have "rel_close (Suc 0) (round_double c) c"
    by (intro rel_close_round)
  then have s: "rel_close (Suc 0) (round_double c * real n) (c * real n)"
    by (rule rel_close_scale) simp
  have "round_double c * real n = 0 \<or> 1 / 2 ^ 1022 \<le> round_double c * real n"
    by (rule rel_close_normal [OF s _ scaled_count [OF assms, of n]]) simp
  with s have "rel_close (Suc (Suc 0)) (round_double (round_double c * real n)) (c * real n)"
    using c0 by (intro rel_close_round) simp_all
  then show ?thesis by (simp add: numeral_2_eq_2)
qed


lemma dict_get_double:
  "dict_get SVARA_WEIGHTS_double (py ''0'') 0 = 0"
  "dict_get SVARA_WEIGHTS_double (py ''1'') 0 = 0"
  "dict_get SVARA_WEIGHTS_double (py ''2'') 0 = round_double 0.08"
  "dict_get SVARA_WEIGHTS_double (py ''5'') 0 = round_double 0.20"
  by (simp_all add: SVARA_WEIGHTS_double_def SVARA_WEIGHTS_def py_def round_double_0)

lemma calculate_double_four:
  "calculate_svara_weight_double [(py ''0'', a), (py ''1'', b), (py ''2'', c), (py ''5'', d)] =
     round_double (round_double (round_double (round_double 0.08 * real c)) +
       round_double (round_double 0.20 * real d))"
  by (simp add: calculate_svara_weight_double_def dict_get_double round_double_0
      del: dict_get.simps)

lemma svara_counts_word_double:
  "svara_counts (svara_word_double raw_word) = svara_counts (svara_word raw_word)"
  "clean_text (svara_word_double raw_word) = clean_text (svara_word raw_word)"
  by (simp_all add: svara_word_double_def svara_word_def Let_def)

lemma total_double_formula:
  "w_total_weight (word_weight_double i (svara_word_double raw_word)) =
     round_double
       (round_double (real (length (clean_text (svara_word_double raw_word))) * round_double 0.1) +
        round_double
          (round_double (round_double (round_double 0.08 *
             real (dict_get (svara_counts (svara_word_double raw_word)) (py ''2'') 0))) +
           round_double (round_double 0.20 *
             real (dict_get (svara_counts (svara_word_double raw_word)) (py ''5'') 0))))"
proof -
  have "weight (svara_word_double raw_word) =
      calculate_svara_weight_double (svara_counts (svara_word raw_word))"
    by (simp add: svara_word_double_def svara_word_def Let_def)
  then have "weight (svara_word_double raw_word) =
      round_double
          (round_double (round_double (round_double 0.08 *
             real (dict_get (svara_counts (svara_word_double raw_word)) (py ''2'') 0))) +
           round_double (round_double 0.20 *
             real (dict_get (svara_counts (svara_word_double raw_word)) (py ''5'') 0)))"
    unfolding svara_counts_word_double svara_counts_word calculate_double_four
    by (simp add: py_def)
  then show ?thesis
    by (simp add: word_weight_double_def Let_def base_weight_per_char_def)
qed

text \<open>
  The literals and the intermediate results of the example, evaluated.
\<close>

lemma double_literals:
  "round_double 0.1 = 3602879701896397 / 2 ^ 55"
  "round_double 0.08 = 5764607523034235 / 2 ^ 56"
  "round_double 0.20 = 3602879701896397 / 2 ^ 54"
  "round_double 0.38 = 3422735716801577 / 2 ^ 53"
  by (simp_all add: round_double_def double_exponent_def eval_nat_numeral round_half_even_def
      powr_neg_numeral)

lemma double_038_steps:
  "round_double (3 * (3602879701896397 / 2 ^ 55)) = 1351079888211149 / 2 ^ 52"
  "round_double (5764607523034235 / 2 ^ 56) = 5764607523034235 / 2 ^ 56"
  "round_double (1351079888211149 / 2 ^ 52 + 5764607523034235 / 2 ^ 56) =
     6845471433603155 / 2 ^ 54"
  by (simp_all add: round_double_def double_exponent_def eval_nat_numeral round_half_even_def
      powr_neg_numeral)

lemma double_038:
  "round_double
       (round_double (real 3 * round_double 0.1) +
        round_double
          (round_double (round_double (round_double 0.08 * real 1)) +
           round_double (round_double 0.20 * real 0))) = 6845471433603155 / 2 ^ 54"
  by (simp only: double_literals double_038_steps round_double_0 of_nat_numeral of_nat_1 of_nat_0
      mult_1_right mult_zero_right add_0_right)

text \<open>
  The five roundings on the way from the exact value to the weight.
\<close>

lemma total_double_close:
  "rel_close 5
     (round_double
       (round_double (real n * round_double 0.1) +
        round_double
          (round_double (round_double (round_double 0.08 * real c2)) +
           round_double (round_double 0.20 * real c5))))
     (0.1 * real n + (0.08 * real c2 + 0.20 * real c5))"
proof -
  let ?A = "round_double (real n * round_double 0.1)"
  let ?p2 = "round_double (round_double 0.08 * real c2)"
  let ?p5 = "round_double (round_double 0.20 * real c5)"
  have S: "Suc 2 = 3" "Suc 3 = 4" "Suc 4 = 5" by simp_all
  have a2: "rel_close 2 (round_double (round_double 0.1 * real n)) (0.1 * real n)"
    by (rule rel_close_literal) simp
  have p2: "rel_close 2 ?p2 (0.08 * real c2)"
    by (rule rel_close_literal) simp
  have p5: "rel_close 2 ?p5 (0.20 * real c5)"
    by (rule rel_close_literal) simp
  have s2: "0.08 * real c2 = 0 \<or> 1 / 50 \<le> 0.08 * real c2"
    by (rule scaled_count) simp
  have s5: "0.20 * real c5 = 0 \<or> 1 / 50 \<le> 0.20 * real c5"
    by (rule scaled_count) simp
  have sn: "0.1 * real n = 0 \<or> 1 / 50 \<le> 0.1 * real n"
    by (rule scaled_count) simp
  have n2: "0 \<le> 0.08 * real c2" and n5: "0 \<le> 0.20 * real c5" and nn: "0 \<le> 0.1 * real n"
    by simp_all
  have "rel_close (Suc 2) (round_double ?p2) (0.08 * real c2)"
    by (rule rel_close_round [OF p2 rel_close_normal [OF p2 _ s2] n2]) simp
  then have w3: "rel_close 3 (round_double ?p2) (0.08 * real c2)"
    by (simp only: S)
  have "rel_close (Suc 2) ?p5 (0.20 * real c5)"
    by (rule rel_close_mono [OF p5 n5])
  then have p5': "rel_close 3 ?p5 (0.20 * real c5)"
    by (simp only: S)
  have sum: "rel_close 3 (round_double ?p2 + ?p5) (0.08 * real c2 + 0.20 * real c5)"
    using w3 p5' by (rule rel_close_add)
  have sb: "0.08 * real c2 + 0.20 * real c5 = 0 \<or> 1 / 50 \<le> 0.08 * real c2 + 0.20 * real c5"
    using s2 s5 n2 n5 by linarith
  have nb: "0 \<le> 0.08 * real c2 + 0.20 * real c5"
    using n2 n5 by linarith
  have "rel_close (Suc 3) (round_double (round_double ?p2 + ?p5)) (0.08 * real c2 + 0.20 * real c5)"
    by (rule rel_close_round [OF sum rel_close_normal [OF sum _ sb] nb]) simp
  then have B: "rel_close 4 (round_double (round_double ?p2 + ?p5))
      (0.08 * real c2 + 0.20 * real c5)"
    by (simp only: S)
  have a2': "rel_close 2 ?A (0.1 * real n)"
    using a2 by (simp only: mult.commute [of "round_double 0.1"])
  have "rel_close (Suc 2) ?A (0.1 * real n)"
    by (rule rel_close_mono [OF a2' nn])
  then have a3: "rel_close 3 ?A (0.1 * real n)"
    by (simp only: S)
  have "rel_close (Suc 3) ?A (0.1 * real n)"
    by (rule rel_close_mono [OF a3 nn])
  then have A: "rel_close 4 ?A (0.1 * real n)"
    by (simp only: S)
  have AB: "rel_close 4 (?A + round_double (round_double ?p2 + ?p5))
      (0.1 * real n + (0.08 * real c2 + 0.20 * real c5))"
    using A B by (rule rel_close_add)
  have st: "0.1 * real n + (0.08 * real c2 + 0.20 * real c5) = 0 \<or>
      1 / 50 \<le> 0.1 * real n + (0.08 * real c2 + 0.20 * real c5)"
    using sn sb nn nb by linarith
  have nt: "0 \<le> 0.1 * real n + (0.08 * real c2 + 0.20 * real c5)"
    using nn nb by linarith
  have "rel_close (Suc 4) (round_double (?A + round_double (round_double ?p2 + ?p5)))
      (0.1 * real n + (0.08 * real c2 + 0.20 * real c5))"
    by (rule rel_close_round [OF AB rel_close_normal [OF AB _ st] nt]) simp
  then show ?thesis
    by (simp only: S)
qed

lemma rel_close_abs:
  assumes "rel_close 5 t e" "0 \<le> e"
  shows "\<bar>t - e\<bar> \<le> e / 2 ^ 50"
proof -
  have hi: "(1 + unit_roundoff) ^ 5 \<le> 1 + 1 / 2 ^ 50"
    by (simp add: unit_roundoff_def power_divide field_simps)
  have "1 + real 5 * (- unit_roundoff) \<le> (1 + (- unit_roundoff)) ^ 5"
    using unit_roundoff_bounds by (intro Bernoulli_inequality) simp
  moreover have "1 - 1 / 2 ^ 50 \<le> 1 + real 5 * (- unit_roundoff)"
    by (simp add: unit_roundoff_def)
  ultimately have lo: "1 - 1 / 2 ^ 50 \<le> (1 - unit_roundoff) ^ 5" by simp
  have "e * (1 - 1 / 2 ^ 50) \<le> e * (1 - unit_roundoff) ^ 5"
    using lo assms(2) by (rule mult_left_mono)
  moreover have "e * (1 + unit_roundoff) ^ 5 \<le> e * (1 + 1 / 2 ^ 50)"
    using hi assms(2) by (rule mult_left_mono)
  ultimately have "e * (1 - 1 / 2 ^ 50) \<le> t" "t \<le> e * (1 + 1 / 2 ^ 50)"
    using assms(1) unfolding rel_close_def by linarith+
  moreover have "e * (1 - 1 / 2 ^ 50) = e - e / 2 ^ 50" "e * (1 + 1 / 2 ^ 50) = e + e / 2 ^ 50"
    by (simp_all add: right_diff_distrib distrib_left)
  ultimately have "e - e / 2 ^ 50 \<le> t" "t \<le> e + e / 2 ^ 50"
    by (simp_all only:)
  then show ?thesis by linarith
qed

lemma counts_word_double_keys:
  "map fst (svara_counts (svara_word_double raw_word)) = [py ''0'', py ''1'', py ''2'', py ''5'']"
  by (simp add: svara_counts_word_double svara_counts_word)

text \<open>
  C6 (as amended).  The weight of a word is the binary64 value of the formula, computed in
  the order of the code: the length of the clean text times 0.1, plus the bonus that
  \<open>calculate_svara_weight\<close> adds up over the four keys of the count dictionary with the
  table values 0.0, 0.0, 0.08, 0.20.  It is the exact value of
  \<open>0.1 * length + (0.0 * n0 + 0.0 * n1 + 0.08 * n2 + 0.20 * n5)\<close> up to rounding, with a
  relative error of at most \<open>2 ^ - 50\<close>, and need not be that value itself: a word of three
  characters with one marker \<open>{2}\<close> and no marker \<open>{5}\<close> weighs
  \<open>6845471433603155 / 2 ^ 54\<close>, printed 0.38000000000000006, which is within \<open>10 ^ - 16\<close> of
  0.38.
\<close>

theorem word_weight_double_formula:
  "map fst (svara_counts (svara_word_double raw_word)) = [py ''0'', py ''1'', py ''2'', py ''5''] \<and>
   w_total_weight (word_weight_double i (svara_word_double raw_word)) =
     round_double
       (round_double (real (length (clean_text (svara_word_double raw_word))) * round_double 0.1) +
        round_double
          (round_double (round_double (round_double 0.08 *
             real (dict_get (svara_counts (svara_word_double raw_word)) (py ''2'') 0))) +
           round_double (round_double 0.20 *
             real (dict_get (svara_counts (svara_word_double raw_word)) (py ''5'') 0)))) \<and>
   \<bar>w_total_weight (word_weight_double i (svara_word_double raw_word)) -
      (0.1 * real (length (clean_text (svara_word_double raw_word))) +
       (0.0 * real (dict_get (svara_counts (svara_word_double raw_word)) (py ''0'') 0) +
        0.0 * real (dict_get (svara_counts (svara_word_double raw_word)) (py ''1'') 0) +
        0.08 * real (dict_get (svara_counts (svara_word_double raw_word)) (py ''2'') 0) +
        0.20 * real (dict_get (svara_counts (svara_word_double raw_word)) (py ''5'') 0)))\<bar>
     \<le> (0.1 * real (length (clean_text (svara_word_double raw_word))) +
       (0.0 * real (dict_get (svara_counts (svara_word_double raw_word)) (py ''0'') 0) +
        0.0 * real (dict_get (svara_counts (svara_word_double raw_word)) (py ''1'') 0) +
        0.08 * real (dict_get (svara_counts (svara_word_double raw_word)) (py ''2'') 0) +
        0.20 * real (dict_get (svara_counts (svara_word_double raw_word)) (py ''5'') 0))) / 2 ^ 50 \<and>
   (length (clean_text (svara_word_double raw_word)) = 3 \<and>
    dict_get (svara_counts (svara_word_double raw_word)) (py ''2'') 0 = 1 \<and>
    dict_get (svara_counts (svara_word_double raw_word)) (py ''5'') 0 = 0 \<longrightarrow>
      w_total_weight (word_weight_double i (svara_word_double raw_word)) =
        6845471433603155 / 2 ^ 54 \<and>
      \<bar>w_total_weight (word_weight_double i (svara_word_double raw_word)) - 0.38\<bar>
        \<le> 1 / 10 ^ 16)"
proof -
  let ?w = "svara_word_double raw_word"
  let ?n = "length (clean_text ?w)"
  let ?c2 = "dict_get (svara_counts ?w) (py ''2'') 0"
  let ?c5 = "dict_get (svara_counts ?w) (py ''5'') 0"
  let ?t = "w_total_weight (word_weight_double i ?w)"
  let ?e = "0.1 * real ?n + (0.08 * real ?c2 + 0.20 * real ?c5)"
  have k: "map fst (svara_counts ?w) = [py ''0'', py ''1'', py ''2'', py ''5'']"
    by (rule counts_word_double_keys)
  have f: "?t = round_double
       (round_double (real ?n * round_double 0.1) +
        round_double
          (round_double (round_double (round_double 0.08 * real ?c2)) +
           round_double (round_double 0.20 * real ?c5)))"
    by (rule total_double_formula)
  have "rel_close 5 ?t ?e"
    unfolding f by (rule total_double_close)
  moreover have "0 \<le> ?e" by simp
  ultimately have "\<bar>?t - ?e\<bar> \<le> ?e / 2 ^ 50"
    by (rule rel_close_abs)
  then have b: "\<bar>?t - (0.1 * real ?n +
       (0.0 * real (dict_get (svara_counts ?w) (py ''0'') 0) +
        0.0 * real (dict_get (svara_counts ?w) (py ''1'') 0) +
        0.08 * real ?c2 + 0.20 * real ?c5))\<bar>
     \<le> (0.1 * real ?n +
       (0.0 * real (dict_get (svara_counts ?w) (py ''0'') 0) +
        0.0 * real (dict_get (svara_counts ?w) (py ''1'') 0) +
        0.08 * real ?c2 + 0.20 * real ?c5)) / 2 ^ 50"
    by simp
  have x: "?t = 6845471433603155 / 2 ^ 54 \<and> \<bar>?t - 0.38\<bar> \<le> 1 / 10 ^ 16"
    if h: "?n = 3 \<and> ?c2 = 1 \<and> ?c5 = 0"
  proof -
    have "?t = round_double
       (round_double (real 3 * round_double 0.1) +
        round_double
          (round_double (round_double (round_double 0.08 * real 1)) +
           round_double (round_double 0.20 * real 0)))"
      using f h by simp
    then have v: "?t = 6845471433603155 / 2 ^ 54"
      by (simp only: double_038)
    have "\<bar>(6845471433603155::real) / 2 ^ 54 - 0.38\<bar> \<le> 1 / 10 ^ 16"
      by simp
    with v show ?thesis by simp
  qed
  from k f b x show ?thesis by blast
qed

text \<open>
  The word of the token \<open>ab{2}c\<close>.
\<close>

theorem word_weight_double_formula_witness:
  "length (clean_text (svara_word_double (py ''ab{2}c''))) = 3 \<and>
   dict_get (svara_counts (svara_word_double (py ''ab{2}c''))) (py ''2'') 0 = 1 \<and>
   dict_get (svara_counts (svara_word_double (py ''ab{2}c''))) (py ''5'') 0 = 0 \<and>
   w_total_weight (word_weight_double 0 (svara_word_double (py ''ab{2}c''))) =
     6845471433603155 / 2 ^ 54 \<and>
   \<bar>w_total_weight (word_weight_double 0 (svara_word_double (py ''ab{2}c''))) - 0.38\<bar>
     \<le> 1 / 10 ^ 16"
proof -
  have l: "length (clean_text (svara_word_double (py ''ab{2}c''))) = 3"
    by (simp add: svara_counts_word_double clean_text_svara_word py_def lbrace_def rbrace_def
        ascii_digit_def)
  have c: "dict_get (svara_counts (svara_word_double (py ''ab{2}c''))) (py ''2'') 0 = 1"
      "dict_get (svara_counts (svara_word_double (py ''ab{2}c''))) (py ''5'') 0 = 0"
    by (simp_all add: svara_counts_word_double svara_counts_word py_def lbrace_def rbrace_def
        re_digit_def nd_blocks_def)
  from word_weight_double_formula [of "py ''ab{2}c''" 0] l c show ?thesis by blast
qed

text \<open>
  The claim as it was stated fails on the token \<open>ab{2}c\<close>: its weight is one unit in the
  last place above the binary64 number 0.38, so the comparison with 0.38 is false.
\<close>

theorem word_weight_is_not_038:
  "length (clean_text (svara_word_double (py ''ab{2}c''))) = 3 \<and>
   svara_counts (svara_word_double (py ''ab{2}c'')) =
     [(py ''0'', 0), (py ''1'', 0), (py ''2'', 1), (py ''5'', 0)] \<and>
   w_total_weight (word_weight_double 0 (svara_word_double (py ''ab{2}c''))) =
     6845471433603155 / 2 ^ 54 \<and>
   round_double 0.38 = 6845471433603154 / 2 ^ 54 \<and>
   w_total_weight (word_weight_double 0 (svara_word_double (py ''ab{2}c''))) \<noteq> round_double 0.38 \<and>
   w_total_weight (word_weight_double 0 (svara_word_double (py ''ab{2}c''))) \<noteq> 0.38"
proof -
  have l: "length (clean_text (svara_word_double (py ''ab{2}c''))) = 3"
    by (simp add: svara_counts_word_double clean_text_svara_word py_def lbrace_def rbrace_def
        ascii_digit_def)
  have c: "svara_counts (svara_word_double (py ''ab{2}c'')) =
      [(py ''0'', 0), (py ''1'', 0), (py ''2'', 1), (py ''5'', 0)]"
    by (simp add: svara_counts_word_double svara_counts_word py_def lbrace_def rbrace_def
        re_digit_def nd_blocks_def)
  have "w_total_weight (word_weight_double 0 (svara_word_double (py ''ab{2}c''))) =
      round_double
       (round_double (real 3 * round_double 0.1) +
        round_double
          (round_double (round_double (round_double 0.08 * real 1)) +
           round_double (round_double 0.20 * real 0)))"
    unfolding total_double_formula l c by (simp add: py_def)
  then have v: "w_total_weight (word_weight_double 0 (svara_word_double (py ''ab{2}c''))) =
      6845471433603155 / 2 ^ 54"
    by (simp only: double_038)
  have r: "round_double 0.38 = 6845471433603154 / 2 ^ 54"
    using double_literals(4) by simp
  have "(6845471433603155::real) / 2 ^ 54 \<noteq> 6845471433603154 / 2 ^ 54"
    "(6845471433603155::real) / 2 ^ 54 \<noteq> 0.38"
    by simp_all
  with l c v r show ?thesis by simp
qed

section \<open>A marker with a digit outside ASCII\<close>

text \<open>
  C9.  A marker with an unrecognized code is to contribute nothing to the counts and to the
  weight and to be removed from the clean text.  The code does so for a code in ASCII
  digits, as in \<open>a{3}\<close>, but not for a brace group around a decimal digit outside ASCII.  In
  the token made of \<open>a\<close> and the group around the Devanagari digit one (U+0967, code point
  2407) the counting pattern, with \<open>\d\<close>, matches the group as a marker, counts it under no
  key and gives it no svara weight; the stripping pattern, with \<open>[0-9]\<close>, does not match
  it, so its three characters stay in the clean text and the total weight is 0.4 where the
  word \<open>a\<close> weighs 0.1.
\<close>

theorem non_ascii_digit_marker_kept:
  "svara_matches (py ''a'' @ [lbrace, 2407, rbrace]) = [[2407]] \<and>
   svara_counts (svara_word (py ''a'' @ [lbrace, 2407, rbrace])) =
     [(py ''0'', 0), (py ''1'', 0), (py ''2'', 0), (py ''5'', 0)] \<and>
   weight (svara_word (py ''a'' @ [lbrace, 2407, rbrace])) = 0 \<and>
   clean_text (svara_word (py ''a'' @ [lbrace, 2407, rbrace])) = py ''a'' @ [lbrace, 2407, rbrace] \<and>
   total_weight_of (svara_word (py ''a'' @ [lbrace, 2407, rbrace])) = 0.4 \<and>
   clean_text (svara_word (py ''a'')) = py ''a'' \<and>
   total_weight_of (svara_word (py ''a'')) = 0.1 \<and>
   clean_text (svara_word (py ''a{3}'')) = py ''a'' \<and>
   total_weight_of (svara_word (py ''a{3}'')) = 0.1"
  by (simp add: total_weight_of_svara_word clean_text_svara_word svara_counts_word
      weight_svara_word re_digit_def nd_blocks_def ascii_digit_def lbrace_def rbrace_def py_def)

end
